theory Spec2Isabelle
  imports Main "HOL-Library.Sublist"
begin

section \<open>Security sandbox: path resolution (sandbox module)\<close>

text \<open>
  The sandbox resolves a tool's input path against the project root with Node's
  \<^verbatim>\<open>path.resolve\<close> and \<^verbatim>\<open>path.normalize\<close> (POSIX flavour, separator \<^verbatim>\<open>/\<close>) and
  refuses every result that is neither the root nor below it.  The two library
  functions are modelled on path segments: a path is cut at every separator, the
  segments are normalised on a stack, and the result is joined again.
\<close>

definition sep :: string where
  "sep = ''/''"

fun split_acc :: "char \<Rightarrow> string \<Rightarrow> string \<Rightarrow> string list" where
  "split_acc c cur [] = [rev cur]"
| "split_acc c cur (x # xs) =
     (if x = c then rev cur # split_acc c [] xs else split_acc c (x # cur) xs)"

definition split_on :: "char \<Rightarrow> string \<Rightarrow> string list" where
  "split_on c s = split_acc c [] s"

fun join_with :: "string \<Rightarrow> string list \<Rightarrow> string" where
  "join_with d [] = []"
| "join_with d [x] = x"
| "join_with d (x # y # ys) = x @ d @ join_with d (y # ys)"

text \<open>
  \<^verbatim>\<open>normalizeString(path, allowAboveRoot)\<close>: empty segments and \<^verbatim>\<open>.\<close> are dropped,
  \<^verbatim>\<open>..\<close> removes the last kept segment unless that is itself \<^verbatim>\<open>..\<close> or there is
  none; in these two cases \<^verbatim>\<open>..\<close> is kept only when going above the root is allowed.
  The stack is kept in reverse order.
\<close>

fun normSegs :: "bool \<Rightarrow> string list \<Rightarrow> string list \<Rightarrow> string list" where
  "normSegs allow acc [] = acc"
| "normSegs allow acc (s # ss) =
     (if s = [] \<or> s = ''.'' then normSegs allow acc ss
      else if s = ''..'' then
        (case acc of
           [] \<Rightarrow> normSegs allow (if allow then [''..''] else []) ss
         | t # ts \<Rightarrow>
             if t \<noteq> ''..'' then normSegs allow ts ss
             else normSegs allow (if allow then ''..'' # acc else acc) ss)
      else normSegs allow (s # acc) ss)"

definition normalizeString :: "string \<Rightarrow> bool \<Rightarrow> string" where
  "normalizeString path allowAboveRoot =
     join_with sep (rev (normSegs allowAboveRoot [] (split_on CHR ''/'' path)))"

definition isAbsolute :: "string \<Rightarrow> bool" where
  "isAbsolute p = (case p of [] \<Rightarrow> False | c # _ \<Rightarrow> c = CHR ''/'')"

text \<open>
  \<^verbatim>\<open>path.resolve(...args)\<close> walks its arguments from the right, then the working
  directory, skipping empty ones, and stops at the first absolute one.
\<close>

fun resolve_loop :: "string list \<Rightarrow> string \<Rightarrow> string \<times> bool" where
  "resolve_loop [] resolvedPath = (resolvedPath, False)"
| "resolve_loop (p # ps) resolvedPath =
     (if p = [] then resolve_loop ps resolvedPath
      else if isAbsolute p then (p @ sep @ resolvedPath, True)
      else resolve_loop ps (p @ sep @ resolvedPath))"

definition path_resolve :: "string \<Rightarrow> string list \<Rightarrow> string" where
  "path_resolve cwd args =
     (case resolve_loop (rev args @ [cwd]) [] of
        (resolvedPath, resolvedAbsolute) \<Rightarrow>
          (let n = normalizeString resolvedPath (\<not> resolvedAbsolute) in
           if resolvedAbsolute then sep @ n
           else if n \<noteq> [] then n else ''.''))"

definition path_normalize :: "string \<Rightarrow> string" where
  "path_normalize path =
     (if path = [] then ''.''
      else
        (let isAbs = isAbsolute path;
             trailingSeparator = (last path = CHR ''/'');
             n = normalizeString path (\<not> isAbs) in
         if n = [] then (if isAbs then sep else if trailingSeparator then ''./'' else ''.'')
         else (if isAbs then sep else []) @ n @ (if trailingSeparator then sep else [])))"

definition setProjectRoot :: "string \<Rightarrow> string \<Rightarrow> string" where
  "setProjectRoot cwd root = path_resolve cwd [root]"

datatype sandbox_error = PathTraversalError string string

definition resolveSafePath :: "string \<Rightarrow> string \<Rightarrow> string \<Rightarrow> sandbox_error + string" where
  "resolveSafePath cwd projectRoot inputPath =
     (let resolved = path_resolve cwd [projectRoot, inputPath];
          normalized = path_normalize resolved in
      if \<not> prefix (projectRoot @ sep) normalized \<and> normalized \<noteq> projectRoot
      then Inl (PathTraversalError inputPath projectRoot)
      else Inr normalized)"

text \<open>
  What the claims call an absolute normalised path: it starts at the root directory and
  none of its segments is empty, \<^verbatim>\<open>.\<close> or \<^verbatim>\<open>..\<close>.  \<open>segments\<close> lists the directory
  names of a path, so that one path lies below another when its segments extend the
  other's.
\<close>

definition clean_seg :: "string \<Rightarrow> bool" where
  "clean_seg s = (s \<noteq> [] \<and> s \<noteq> ''.'' \<and> s \<noteq> ''..'' \<and> CHR ''/'' \<notin> set s)"

definition segments :: "string \<Rightarrow> string list" where
  "segments p = filter (\<lambda>s. s \<noteq> []) (split_on CHR ''/'' p)"

definition normal_abs :: "string \<Rightarrow> bool" where
  "normal_abs q = (isAbsolute q \<and> (q = sep \<or> list_all clean_seg (split_on CHR ''/'' (tl q))))"

section \<open>Tool results and number rendering\<close>

text \<open>
  A \<^verbatim>\<open>ToolResult\<close> is \<^verbatim>\<open>{content: string, isError?: boolean}\<close>; the optional flag is
  read by the callers as \<^verbatim>\<open>result.isError ?? false\<close>.  Strings are lists of 8-bit
  characters.  On ASCII text, which all examples are, a character is one UTF-16 code
  unit and \<open>length\<close> is JavaScript's \<^verbatim>\<open>.length\<close>; the characters outside ASCII in the
  tools' own messages are written as their UTF-8 bytes.
\<close>

record tool_result =
  res_content :: string
  res_isError :: "bool option"

definition is_error :: "tool_result \<Rightarrow> bool" where
  "is_error r = (case res_isError r of None \<Rightarrow> False | Some b \<Rightarrow> b)"

definition digit_char :: "nat \<Rightarrow> char" where
  "digit_char d = char_of (48 + d)"

fun decimal :: "nat \<Rightarrow> string" where
  "decimal n = (if n < 10 then [digit_char n] else decimal (n div 10) @ [digit_char (n mod 10)])"

declare decimal.simps [simp del]

definition decimal_int :: "int \<Rightarrow> string" where
  "decimal_int i = (if i < 0 then ''-'' @ decimal (nat (- i)) else decimal (nat i))"

section \<open>The edit tool (edit_file)\<close>

text \<open>
  \<^verbatim>\<open>content.indexOf(oldStr, searchFrom)\<close>: the start position is clamped to the length
  of the content, and the first position from there at which \<open>oldStr\<close> stands is
  returned; \<open>None\<close> stands for \<^verbatim>\<open>-1\<close>.  The empty string stands at every position.
\<close>

function indexOf_loop :: "string \<Rightarrow> string \<Rightarrow> nat \<Rightarrow> nat option" where
  "indexOf_loop s pat k =
     (if prefix pat (drop k s) then Some k
      else if length s \<le> k then None
      else indexOf_loop s pat (Suc k))"
  by pat_completeness auto
termination
  by (relation "measure (\<lambda>(s, pat, k). length s - k)") auto

definition indexOf :: "string \<Rightarrow> string \<Rightarrow> nat \<Rightarrow> nat option" where
  "indexOf s pat fromIndex = indexOf_loop s pat (min fromIndex (length s))"

text \<open>
  The counting loop of \<^verbatim>\<open>execute\<close>:
  \<^verbatim>\<open>while (true) { idx = content.indexOf(oldStr, searchFrom); if (idx === -1) break;
  count++; searchFrom = idx + oldStr.length; }\<close>.
  Nothing bounds the loop, so the model is a partial function: \<open>None\<close> is a run that
  never leaves the loop.
\<close>

partial_function (option) countLoop :: "string \<Rightarrow> string \<Rightarrow> nat \<Rightarrow> nat \<Rightarrow> nat option" where
  "countLoop content oldStr count searchFrom =
     (case indexOf content oldStr searchFrom of
        None \<Rightarrow> Some count
      | Some idx \<Rightarrow> countLoop content oldStr (count + 1) (idx + length oldStr))"

declare countLoop.simps [code]

text \<open>
  \<^verbatim>\<open>content.replace(oldStr, newStr)\<close> with a string pattern replaces the first match
  only, and expands the replacement patterns of \<^verbatim>\<open>String.prototype.replace\<close> in
  \<open>newStr\<close>: \<^verbatim>\<open>$$\<close> is a dollar sign, \<^verbatim>\<open>$&\<close> the match, \<^verbatim>\<open>$`\<close> the text before it and
  \<^verbatim>\<open>$'\<close> the text after it.  A string pattern has no capture groups, so \<^verbatim>\<open>$1\<close> and
  \<^verbatim>\<open>$<name>\<close> stay as they are.
\<close>

fun getSubstitution :: "string \<Rightarrow> string \<Rightarrow> string \<Rightarrow> string \<Rightarrow> string" where
  "getSubstitution matched preceding following [] = []"
| "getSubstitution matched preceding following [c] = [c]"
| "getSubstitution matched preceding following (c # d # r) =
     (if c = CHR ''$'' \<and> d = CHR ''$'' then CHR ''$'' # getSubstitution matched preceding following r
      else if c = CHR ''$'' \<and> d = CHR ''&'' then matched @ getSubstitution matched preceding following r
      else if c = CHR ''$'' \<and> d = CHR 0x60 then preceding @ getSubstitution matched preceding following r
      else if c = CHR ''$'' \<and> d = CHR 0x27 then following @ getSubstitution matched preceding following r
      else c # getSubstitution matched preceding following (d # r))"

definition js_replace :: "string \<Rightarrow> string \<Rightarrow> string \<Rightarrow> string" where
  "js_replace s pat repl =
     (case indexOf s pat 0 of
        None \<Rightarrow> s
      | Some i \<Rightarrow>
          take i s @ getSubstitution pat (take i s) (drop (i + length pat) s) repl
            @ drop (i + length pat) s)"

text \<open>
  The file system the tool works on: a path holds a file with its content, a
  directory, or nothing.  \<^verbatim>\<open>fs.readFile\<close> fails with \<^verbatim>\<open>ENOENT\<close> on a missing path and
  with \<^verbatim>\<open>EISDIR\<close> on a directory; any other failure of the read would take the same
  \<^verbatim>\<open>catch\<close> branch, before anything is written.

  Whether the calls that write succeed is the operating system's, so each of them is
  given its outcome (\<open>io_faults\<close>): \<^verbatim>\<open>fs.writeFile\<close> and \<^verbatim>\<open>fs.copyFile\<close> either succeed or
  throw an error with a message, leaving at their destination what the failed call
  left there (the destination as it was, a piece of the new content, or nothing: a
  copy is not atomic); \<^verbatim>\<open>fs.rename\<close> either moves the file or throws and changes
  nothing; \<^verbatim>\<open>fs.unlink\<close> removes the file or fails, which the tool ignores.
\<close>

datatype node = File string | Dir

type_synonym filesystem = "string \<Rightarrow> node option"

datatype fs_error = ENOENT string | EISDIR

definition error_message :: "fs_error \<Rightarrow> string" where
  "error_message e =
     (case e of
        ENOENT p \<Rightarrow> ''ENOENT: no such file or directory, open '' @ [CHR 0x27] @ p @ [CHR 0x27]
      | EISDIR \<Rightarrow> ''EISDIR: illegal operation on a directory, read'')"

definition readFile :: "filesystem \<Rightarrow> string \<Rightarrow> fs_error + string" where
  "readFile fs p =
     (case fs p of
        None \<Rightarrow> Inl (ENOENT p)
      | Some Dir \<Rightarrow> Inl EISDIR
      | Some (File c) \<Rightarrow> Inr c)"

record io_faults =
  writeFile_fault :: "(string \<times> node option) option"
  rename_fault :: "string option"
  copyFile_fault :: "(string \<times> node option) option"
  unlink_fault :: bool

definition no_faults :: io_faults where
  "no_faults =
     \<lparr>writeFile_fault = None, rename_fault = None, copyFile_fault = None, unlink_fault = False\<rparr>"

definition writeFile ::
  "(string \<times> node option) option \<Rightarrow> filesystem \<Rightarrow> string \<Rightarrow> string
     \<Rightarrow> (string \<times> filesystem) + filesystem" where
  "writeFile fault fs p c =
     (case fault of
        None \<Rightarrow> Inr (fs(p \<mapsto> File c))
      | Some (msg, left) \<Rightarrow> Inl (msg, fs(p := left)))"

definition rename :: "string option \<Rightarrow> filesystem \<Rightarrow> string \<Rightarrow> string \<Rightarrow> string + filesystem" where
  "rename fault fs src dst =
     (case fault of
        None \<Rightarrow> Inr (if src = dst then fs else (fs(src := None))(dst := fs src))
      | Some msg \<Rightarrow> Inl msg)"

definition copyFile ::
  "(string \<times> node option) option \<Rightarrow> filesystem \<Rightarrow> string \<Rightarrow> string
     \<Rightarrow> (string \<times> filesystem) + filesystem" where
  "copyFile fault fs src dst =
     (case fault of
        None \<Rightarrow> Inr (fs(dst := fs src))
      | Some (msg, left) \<Rightarrow> Inl (msg, fs(dst := left)))"

definition unlink :: "bool \<Rightarrow> filesystem \<Rightarrow> string \<Rightarrow> filesystem" where
  "unlink fault fs p = (if fault then fs else fs(p := None))"

definition str_includes :: "string \<Rightarrow> string \<Rightarrow> bool" where
  "str_includes s pat = (indexOf s pat 0 \<noteq> None)"

definition traversal_message :: "sandbox_error \<Rightarrow> string" where
  "traversal_message e =
     (case e of PathTraversalError inputPath root \<Rightarrow>
        ''Path \"'' @ inputPath @ ''\" resolves outside project root \"'' @ root
          @ ''\". Access denied.'')"

definition count_lines :: "string \<Rightarrow> nat" where
  "count_lines s = length (split_on CHR 0x0A s)"

record edit_env =
  env_cwd :: string
  env_root :: string
  env_tmpPath :: string
  env_faults :: io_faults

record edit_input =
  in_path :: string
  old_string :: string
  new_string :: string

text \<open>
  The \<^verbatim>\<open>catch\<close> block around the reading and the writing (lines 96 to 101), for an
  error with the message \<open>msg\<close>.
\<close>

definition catch_result :: "string \<Rightarrow> string \<Rightarrow> tool_result" where
  "catch_result inputPath msg =
     (if str_includes msg ''ENOENT''
      then \<lparr>res_content = ''File not found: '' @ inputPath, res_isError = Some True\<rparr>
      else \<lparr>res_content = ''Error editing file: '' @ msg, res_isError = Some True\<rparr>)"

definition edited_result :: "string \<Rightarrow> string \<Rightarrow> string \<Rightarrow> tool_result" where
  "edited_result safePath oldStr newStr =
     (let oldLines = count_lines oldStr;
          newLines = count_lines newStr;
          delta = int newLines - int oldLines;
          deltaStr = (if delta > 0 then ''+'' @ decimal_int delta
                      else if delta < 0 then decimal_int delta
                      else [CHR 0xC2, CHR 0xB1] @ ''0'')
      in \<lparr>res_content = ''Edited: '' @ safePath @ '' (replaced ''
                  @ decimal (length oldStr) @ '' '' @ [CHR 0xE2, CHR 0x86, CHR 0x92]
                  @ '' '' @ decimal (length newStr) @ '' chars, '' @ deltaStr
                  @ '' lines)'',
                res_isError = None\<rparr>)"

text \<open>
  The atomic write (lines 78 to 86): the new content goes to a temporary file, which
  is renamed onto the target; when the rename fails, the temporary file is copied
  onto the target and removed.  \<open>Inl\<close> is the error that leaves the block, with the
  file system as it is then.
\<close>

definition atomic_write ::
  "io_faults \<Rightarrow> filesystem \<Rightarrow> string \<Rightarrow> string \<Rightarrow> string \<Rightarrow> (string \<times> filesystem) + filesystem" where
  "atomic_write faults fs tmpPath safePath newContent =
     (case writeFile (writeFile_fault faults) fs tmpPath newContent of
        Inl failed \<Rightarrow> Inl failed
      | Inr fs1 \<Rightarrow>
          (case rename (rename_fault faults) fs1 tmpPath safePath of
             Inr fs2 \<Rightarrow> Inr fs2
           | Inl renameError \<Rightarrow>
               (case copyFile (copyFile_fault faults) fs1 tmpPath safePath of
                  Inl failed \<Rightarrow> Inl failed
                | Inr fs2 \<Rightarrow> Inr (unlink (unlink_fault faults) fs2 tmpPath))))"

definition editFile_execute ::
  "edit_env \<Rightarrow> filesystem \<Rightarrow> edit_input \<Rightarrow> (tool_result \<times> filesystem) option" where
  "editFile_execute env fs inp =
     (let inputPath = in_path inp; oldStr = old_string inp; newStr = new_string inp in
      if oldStr = newStr then
        Some (\<lparr>res_content = ''old_string and new_string are identical. No change needed.'',
               res_isError = Some True\<rparr>, fs)
      else
        case resolveSafePath (env_cwd env) (env_root env) inputPath of
          Inl err \<Rightarrow> Some (\<lparr>res_content = traversal_message err, res_isError = Some True\<rparr>, fs)
        | Inr safePath \<Rightarrow>
            (case readFile fs safePath of
               Inl err \<Rightarrow> Some (catch_result inputPath (error_message err), fs)
             | Inr content \<Rightarrow>
                 (case countLoop content oldStr 0 0 of
                    None \<Rightarrow> None
                  | Some count \<Rightarrow>
                      if count = 0 then
                        Some (\<lparr>res_content = ''String not found in '' @ inputPath
                                  @ ''. Verify the exact content including whitespace and newlines.'',
                               res_isError = Some True\<rparr>, fs)
                      else if count > 1 then
                        Some (\<lparr>res_content = ''Found '' @ decimal count @ '' occurrences of old_string in ''
                                  @ inputPath @ ''. Must be unique '' @ [CHR 0xE2, CHR 0x80, CHR 0x94]
                                  @ '' provide more surrounding context to disambiguate.'',
                               res_isError = Some True\<rparr>, fs)
                      else
                        (case atomic_write (env_faults env) fs (env_tmpPath env) safePath
                                (js_replace content oldStr newStr) of
                           Inl (msg, fs') \<Rightarrow> Some (catch_result inputPath msg, fs')
                         | Inr fs' \<Rightarrow> Some (edited_result safePath oldStr newStr, fs')))))"

text \<open>
  An environment for the examples: the project root is \<^verbatim>\<open>/w\<close> and every write
  succeeds.
\<close>

definition env0 :: edit_env where
  "env0 =
     \<lparr>env_cwd = ''/w'', env_root = ''/w'', env_tmpPath = ''/tmp/moth-edit-1'',
      env_faults = no_faults\<rparr>"


text \<open>
  The words of the claims about occurrences.  \<open>occurs_at\<close> says that the search string
  stands at a position of the content; \<open>scan_count\<close> is the number of matches found by
  scanning from the left and resuming after each whole match (what the loop computes
  for a non-empty search string, see \<open>countLoop_scan_count\<close>).
\<close>

definition occurs_at :: "string \<Rightarrow> string \<Rightarrow> nat \<Rightarrow> bool" where
  "occurs_at s pat i = (i \<le> length s \<and> prefix pat (drop i s))"

definition occurrences :: "string \<Rightarrow> string \<Rightarrow> nat list" where
  "occurrences s pat = filter (occurs_at s pat) [0 ..< Suc (length s)]"

text \<open>
  What \<open>indexOf\<close> returns, in terms of \<open>occurs_at\<close>; the scan below needs it to
  terminate.
\<close>

declare indexOf_loop.simps [simp del]

lemma indexOf_loop_Some:
  "indexOf_loop s pat k = Some i \<Longrightarrow> k \<le> length s \<Longrightarrow>
     k \<le> i \<and> i \<le> length s \<and> prefix pat (drop i s) \<and> (\<forall>j. k \<le> j \<and> j < i \<longrightarrow> \<not> prefix pat (drop j s))"
proof (induction s pat k rule: indexOf_loop.induct)
  case (1 s pat k)
  show ?case
  proof (cases "prefix pat (drop k s)")
    case True
    with "1.prems" have "i = k" by (subst (asm) indexOf_loop.simps) simp
    with True "1.prems" show ?thesis by auto
  next
    case False
    with "1.prems" have lt: "k < length s" and rec: "indexOf_loop s pat (Suc k) = Some i"
      by (subst (asm) indexOf_loop.simps, auto split: if_splits)+
    from "1.IH"[OF False _ rec] lt
    have ih: "Suc k \<le> i \<and> i \<le> length s \<and> prefix pat (drop i s) \<and>
              (\<forall>j. Suc k \<le> j \<and> j < i \<longrightarrow> \<not> prefix pat (drop j s))" by simp
    have "\<forall>j. k \<le> j \<and> j < i \<longrightarrow> \<not> prefix pat (drop j s)"
    proof (intro allI impI)
      fix j assume j: "k \<le> j \<and> j < i"
      show "\<not> prefix pat (drop j s)"
      proof (cases "j = k")
        case True then show ?thesis using False by simp
      next
        case False then show ?thesis using ih j by auto
      qed
    qed
    with ih show ?thesis by auto
  qed
qed

lemma indexOf_loop_None:
  "indexOf_loop s pat k = None \<Longrightarrow> k \<le> j \<Longrightarrow> \<not> prefix pat (drop j s)"
proof (induction s pat k rule: indexOf_loop.induct)
  case (1 s pat k)
  from "1.prems" have np: "\<not> prefix pat (drop k s)"
    by (subst (asm) indexOf_loop.simps) (auto split: if_splits)
  show ?case
  proof (cases "length s \<le> k")
    case True
    then have "drop j s = drop k s" using "1.prems"(2) by simp
    then show ?thesis using np by simp
  next
    case False
    with "1.prems" np have rec: "indexOf_loop s pat (Suc k) = None"
      by (subst (asm) indexOf_loop.simps) (auto split: if_splits)
    show ?thesis
    proof (cases "j = k")
      case True then show ?thesis using np by simp
    next
      case ne: False
      then have "Suc k \<le> j" using "1.prems"(2) by simp
      from "1.IH"[OF np False rec this] show ?thesis .
    qed
  qed
qed

lemma occurs_at_bound: "pat \<noteq> [] \<Longrightarrow> occurs_at s pat i \<Longrightarrow> i + length pat \<le> length s"
  unfolding occurs_at_def by (auto dest!: prefix_length_le)

lemma indexOf_Some:
  assumes "indexOf s pat f = Some i"
  shows "occurs_at s pat i" and "min f (length s) \<le> i"
    and "\<And>j. min f (length s) \<le> j \<Longrightarrow> j < i \<Longrightarrow> \<not> occurs_at s pat j"
  using indexOf_loop_Some[of s pat "min f (length s)" i] assms
  by (auto simp: indexOf_def occurs_at_def)

lemma indexOf_None:
  assumes "indexOf s pat f = None" and "min f (length s) \<le> j"
  shows "\<not> occurs_at s pat j"
  using indexOf_loop_None[of s pat "min f (length s)" j] assms
  by (auto simp: indexOf_def occurs_at_def)

lemma indexOf_empty: "indexOf s [] f = Some (min f (length s))"
  by (simp add: indexOf_def indexOf_loop.simps)

function scan_count :: "string \<Rightarrow> string \<Rightarrow> nat \<Rightarrow> nat" where
  "scan_count s pat searchFrom =
     (if pat = [] then 0
      else case indexOf s pat searchFrom of
             None \<Rightarrow> 0
           | Some idx \<Rightarrow> Suc (scan_count s pat (idx + length pat)))"
  by pat_completeness auto
termination
proof (relation "measure (\<lambda>(s, pat, f). length s - min f (length s))", goal_cases)
  case 1 show ?case by simp
next
  case (2 s pat f idx)
  from indexOf_Some[OF 2(2)] occurs_at_bound[OF 2(1)]
  have "min f (length s) \<le> idx" "idx + length pat \<le> length s" by auto
  moreover from 2(1) have "1 \<le> length pat" by (cases pat) auto
  ultimately show ?case by simp
qed

declare scan_count.simps [simp del]

section \<open>The shell tool (bash)\<close>

text \<open>
  The blocked-command check tests the lower-cased, trimmed command against a fixed
  list of regular expressions.  The expressions use literals, character ranges,
  \<^verbatim>\<open>.\<close>, \<^verbatim>\<open>\s\<close>, \<^verbatim>\<open>\b\<close>, \<^verbatim>\<open>$\<close>, alternation, grouping and the postfix operators
  \<^verbatim>\<open>*\<close>, \<^verbatim>\<open>+\<close>, \<^verbatim>\<open>?\<close>.  For these, \<^verbatim>\<open>pattern.test(s)\<close> holds exactly when some
  substring of \<open>s\<close> is matched, so the matcher computes, for a start position, all
  positions at which a match can end.  The model is of ASCII commands: the white
  space and line terminators outside ASCII that \<^verbatim>\<open>\s\<close>, \<^verbatim>\<open>.\<close> and \<^verbatim>\<open>trim\<close> know (such as
  the no-break space) and the case mapping of letters outside ASCII are not modelled.
\<close>

datatype rx =
    Lit char
  | Dot
  | Space
  | Range char char
  | WordB
  | Eol
  | Seq rx rx
  | Alt rx rx
  | Star rx
  | Plus rx
  | Opt rx

definition code_of :: "char \<Rightarrow> nat" where
  "code_of c = of_char c"

definition is_space :: "char \<Rightarrow> bool" where
  "is_space c = (code_of c \<in> {9, 10, 11, 12, 13, 32})"

definition is_line_terminator :: "char \<Rightarrow> bool" where
  "is_line_terminator c = (code_of c \<in> {10, 13})"

definition in_range :: "char \<Rightarrow> char \<Rightarrow> char \<Rightarrow> bool" where
  "in_range lo hi c = (code_of lo \<le> code_of c \<and> code_of c \<le> code_of hi)"

definition is_word_char :: "char \<Rightarrow> bool" where
  "is_word_char c =
     (in_range CHR ''a'' CHR ''z'' c \<or> in_range CHR ''A'' CHR ''Z'' c \<or>
      in_range CHR ''0'' CHR ''9'' c \<or> c = CHR ''_'')"

definition word_at :: "string \<Rightarrow> nat \<Rightarrow> bool" where
  "word_at s i = (i < length s \<and> is_word_char (s ! i))"

definition word_boundary :: "string \<Rightarrow> nat \<Rightarrow> bool" where
  "word_boundary s i = ((i > 0 \<and> word_at s (i - 1)) \<noteq> word_at s i)"

definition step_char :: "(char \<Rightarrow> bool) \<Rightarrow> string \<Rightarrow> nat \<Rightarrow> nat list" where
  "step_char P s i = (if i < length s \<and> P (s ! i) then [Suc i] else [])"

text \<open>
  Repetition: the positions reachable from \<open>front\<close> by matching the body again and
  again.  A round that consumes nothing adds nothing, so as many rounds as the string
  has positions are enough.
\<close>

fun star_closure :: "(nat \<Rightarrow> nat list) \<Rightarrow> nat \<Rightarrow> nat list \<Rightarrow> nat list" where
  "star_closure f 0 front = front"
| "star_closure f (Suc n) front =
     front @ star_closure f n (remdups (concat (map f front)))"

fun rx_ends :: "rx \<Rightarrow> string \<Rightarrow> nat \<Rightarrow> nat list" where
  "rx_ends (Lit c) s i = step_char (\<lambda>x. x = c) s i"
| "rx_ends Dot s i = step_char (\<lambda>x. \<not> is_line_terminator x) s i"
| "rx_ends Space s i = step_char is_space s i"
| "rx_ends (Range lo hi) s i = step_char (in_range lo hi) s i"
| "rx_ends WordB s i = (if word_boundary s i then [i] else [])"
| "rx_ends Eol s i = (if i = length s then [i] else [])"
| "rx_ends (Seq a b) s i = concat (map (\<lambda>j. rx_ends b s j) (rx_ends a s i))"
| "rx_ends (Alt a b) s i = rx_ends a s i @ rx_ends b s i"
| "rx_ends (Star a) s i = star_closure (\<lambda>j. rx_ends a s j) (length s) [i]"
| "rx_ends (Plus a) s i =
     star_closure (\<lambda>j. rx_ends a s j) (length s) (remdups (rx_ends a s i))"
| "rx_ends (Opt a) s i = i # rx_ends a s i"

definition rx_test :: "rx \<Rightarrow> string \<Rightarrow> bool" where
  "rx_test r s = list_ex (\<lambda>i. rx_ends r s i \<noteq> []) [0 ..< Suc (length s)]"

definition seqs :: "rx list \<Rightarrow> rx" where
  "seqs rs = foldr Seq (butlast rs) (last rs)"

definition lits :: "string \<Rightarrow> rx" where
  "lits s = seqs (map Lit s)"

definition alts :: "rx list \<Rightarrow> rx" where
  "alts rs = foldr Alt (butlast rs) (last rs)"

definition toLowerCase :: "string \<Rightarrow> string" where
  "toLowerCase s =
     map (\<lambda>c. if in_range CHR ''A'' CHR ''Z'' c then char_of (code_of c + 32) else c) s"

definition trim :: "string \<Rightarrow> string" where
  "trim s = rev (dropWhile is_space (rev (dropWhile is_space s)))"

text \<open>The list \<^verbatim>\<open>destructive\<close> of \<^verbatim>\<open>isBlockedCommand\<close>, in its order.\<close>

definition shells :: rx where
  "shells = alts [lits ''bash'', lits ''sh'', lits ''zsh'']"

definition az :: rx where
  "az = Range CHR ''a'' CHR ''z''"

definition destructive :: "(rx \<times> string) list" where
  "destructive =
   [(seqs [WordB, lits ''rm'', Plus Space,
           Opt (seqs [Lit CHR ''-'', Star az, Lit CHR ''f'', Star az, Plus Space]),
           Lit CHR ''/'', Alt Eol Space],
     ''rm at filesystem root''),
    (seqs [WordB, lits ''mkfs'', WordB], ''filesystem formatting''),
    (seqs [WordB, lits ''dd'', Plus Space, Star Dot, WordB, lits ''of=/dev/''],
     ''raw device write''),
    (seqs [lits '':(){'', Star Dot, Lit CHR ''|'', Star Dot, Lit CHR ''&'', Star Dot, lits ''};:''],
     ''fork bomb''),
    (seqs [WordB, alts [lits ''shutdown'', lits ''reboot'', lits ''halt'', lits ''poweroff''], WordB],
     ''system power control''),
    (seqs [Lit CHR ''>'', Star Space, lits ''/dev/sd'', az], ''raw device write''),
    (seqs [Lit CHR ''>'', Star Space, lits ''/dev/nvme''], ''raw device write''),
    (seqs [WordB, lits ''chmod'', Plus Space, Opt (seqs [lits ''-R'', Plus Space]),
           Star (Range CHR ''0'' CHR ''7''), Plus Space, Lit CHR ''/'', Alt Eol Space],
     ''recursive permission change at root''),
    (seqs [WordB, lits ''chown'', Plus Space, Opt (seqs [lits ''-R'', Plus Space]),
           Star Dot, Plus Space, Lit CHR ''/'', Alt Eol Space],
     ''recursive ownership change at root''),
    (seqs [WordB, lits ''curl'', Space, Star Dot, Lit CHR ''|'', Star Space, shells],
     ''pipe remote script to shell''),
    (seqs [WordB, lits ''wget'', Space, Star Dot, Lit CHR ''|'', Star Space, shells],
     ''pipe remote script to shell'')]"

fun first_blocked :: "(rx \<times> string) list \<Rightarrow> string \<Rightarrow> string option" where
  "first_blocked [] normalized = None"
| "first_blocked ((pattern, reason) # rest) normalized =
     (if rx_test pattern normalized
      then Some (''Command blocked: '' @ reason
                 @ ''. If this is intentional, run it directly in your terminal.'')
      else first_blocked rest normalized)"

definition isBlockedCommand :: "string \<Rightarrow> string option" where
  "isBlockedCommand command = first_blocked destructive (trim (toLowerCase command))"

text \<open>
  \<^verbatim>\<open>execute\<close>: a blocked command is answered at once.  Any other command is run as
  \<^verbatim>\<open>bash -c command\<close> in the project root.  What the subprocess does is the
  environment's: it fails to start, or it closes with the chunks it wrote, an exit
  code and a signal; \<open>timed_out\<close> says that the timer fired before it closed.  The
  result records the subprocesses spawned.
\<close>

record spawn_call =
  sp_file :: string
  sp_args :: "string list"
  sp_cwd :: string

datatype proc_run =
    SpawnFailed string
  | Closed "string list" "int option" "string option" bool

record bash_input =
  command :: string
  timeout :: "nat option"

definition DEFAULT_TIMEOUT :: nat where
  "DEFAULT_TIMEOUT = 120000"

definition MAX_OUTPUT :: nat where
  "MAX_OUTPUT = 200000"

fun collectOutput :: "string list \<Rightarrow> nat \<Rightarrow> string list \<Rightarrow> string list \<times> nat" where
  "collectOutput chunks totalSize [] = (chunks, totalSize)"
| "collectOutput chunks totalSize (d # ds) =
     (if totalSize \<ge> MAX_OUTPUT then collectOutput chunks totalSize ds
      else
        (let remaining = MAX_OUTPUT - totalSize;
             chunk = (if length d > remaining then take remaining d else d)
         in collectOutput (chunks @ [chunk]) (totalSize + length chunk) ds))"

definition bash_execute ::
  "string \<Rightarrow> (spawn_call \<Rightarrow> proc_run) \<Rightarrow> bash_input \<Rightarrow> tool_result \<times> spawn_call list" where
  "bash_execute projectRoot run inp =
     (let timeout_ms = (case timeout inp of None \<Rightarrow> DEFAULT_TIMEOUT
                        | Some t \<Rightarrow> if t = 0 then DEFAULT_TIMEOUT else t)
      in case isBlockedCommand (command inp) of
           Some blocked \<Rightarrow>
             (\<lparr>res_content = ''Blocked: '' @ blocked, res_isError = Some True\<rparr>, [])
         | None \<Rightarrow>
             (let call = \<lparr>sp_file = ''bash'', sp_args = [''-c'', command inp],
                          sp_cwd = projectRoot\<rparr>
              in case run call of
                   SpawnFailed msg \<Rightarrow>
                     (\<lparr>res_content = ''Failed to execute: '' @ msg, res_isError = Some True\<rparr>,
                      [call])
                 | Closed written code signal timed_out \<Rightarrow>
                     (case collectOutput [] 0 written of
                        (chunks, totalSize) \<Rightarrow>
                          (let out0 = concat chunks;
                               out1 = (if totalSize \<ge> MAX_OUTPUT
                                       then out0 @ [CHR 0x0A] @ ''... (output truncated at 200KB)''
                                       else out0);
                               out2 = (if signal = Some ''SIGTERM'' \<or> timed_out
                                       then out1 @ [CHR 0x0A] @ ''(killed: timeout after ''
                                              @ decimal timeout_ms @ ''ms)''
                                       else out1)
                           in (\<lparr>res_content =
                                   (if out2 \<noteq> [] then out2
                                    else ''(no output, exit code: ''
                                           @ (case code of None \<Rightarrow> ''null''
                                              | Some c \<Rightarrow> decimal_int c) @ '')''),
                                 res_isError = Some (code \<noteq> Some 0)\<rparr>,
                               [call])))))"


section \<open>Messages, provider events and bus events\<close>

text \<open>
  Tool inputs are JSON objects (\<^verbatim>\<open>Record<string, unknown>\<close>): lists of fields with JSON
  values, each name at most once.  Numbers are integers here.
\<close>

datatype json =
    JNull
  | JBool bool
  | JNum int
  | JStr string
  | JArr "json list"
  | JObj "(string \<times> json) list"

type_synonym tool_input = "(string \<times> json) list"

datatype role = System | User | Assistant | ToolRole

datatype content_block =
    TextBlock string
  | ToolUse string string tool_input
  | ToolResultBlock string string bool

datatype msg_content = Plain string | Blocks "content_block list"

record chat_message =
  msg_role :: role
  msg_content :: msg_content
  msg_toolCallId :: "string option"

record token_usage =
  inputTokens :: nat
  outputTokens :: nat

datatype js_error = JsError string string

definition err_name :: "js_error \<Rightarrow> string" where
  "err_name e = (case e of JsError n m \<Rightarrow> n)"

definition err_message :: "js_error \<Rightarrow> string" where
  "err_message e = (case e of JsError n m \<Rightarrow> m)"

definition new_Error :: "string \<Rightarrow> js_error" where
  "new_Error m = JsError ''Error'' m"

datatype 'i provider_event =
    TextDelta string
  | ToolCallStart string string
  | ToolCallDelta string string
  | ToolCallEnd string string 'i
  | Done token_usage
  | ErrorEvent js_error

text \<open>
  The bus payloads (\<^verbatim>\<open>MothEvent\<close>).  Every payload also carries \<^verbatim>\<open>Date.now()\<close> as its
  time stamp, which is left out.
\<close>

datatype moth_event =
    UserInput string
  | AgentThinking
  | AgentText string
  | AgentTextDone string
  | AgentToolRequest string string tool_input
  | AgentToolResult string string bool
  | AgentTurnComplete token_usage
  | AgentError js_error bool
  | ToolApprovalRequired string string tool_input
  | ToolApproved string
  | ToolDenied string
  | ToolExecuting string string
  | ToolComplete string string bool nat
  | SessionStarted string
  | SessionCleared
  | SessionContextTrimmed nat
  | SystemError js_error bool
  | SystemShutdown string

section \<open>Tool input validation (validator module)\<close>

text \<open>
  A tool's \<^verbatim>\<open>inputSchema\<close>: the declared properties, each with its \<^verbatim>\<open>type\<close> if it
  has one, and the optional list of required fields.  Executing a tool is the
  environment's: the promise \<^verbatim>\<open>tool.execute(input)\<close> resolves with a result or rejects
  with a message after some milliseconds, or never settles.
\<close>

record input_schema =
  properties :: "(string \<times> string option) list"
  required :: "string list option"

datatype exec_outcome =
    Resolves nat tool_result
  | Rejects nat string
  | NeverSettles

record tool =
  tool_name :: string
  tool_description :: string
  inputSchema :: input_schema
  requiresConfirmation :: bool
  execute :: "tool_input \<Rightarrow> exec_outcome"

record validation_result =
  valid :: bool
  errors :: "string list"

definition js_typeof :: "json \<Rightarrow> string" where
  "js_typeof v =
     (case v of JStr s \<Rightarrow> ''string'' | JNum n \<Rightarrow> ''number'' | JBool b \<Rightarrow> ''boolean''
      | _ \<Rightarrow> ''object'')"

text \<open>
  \<^verbatim>\<open>!(field in input) || input[field] === undefined || input[field] === null\<close>.  The
  \<^verbatim>\<open>in\<close> operator and the property read also find what the input object inherits from
  \<^verbatim>\<open>Object.prototype\<close>, and none of these inherited values is \<^verbatim>\<open>undefined\<close> or \<^verbatim>\<open>null\<close>;
  an own field shadows an inherited one.
\<close>

definition object_prototype_keys :: "string list" where
  "object_prototype_keys =
     [''constructor'', ''__defineGetter__'', ''__defineSetter__'', ''hasOwnProperty'',
      ''__lookupGetter__'', ''__lookupSetter__'', ''isPrototypeOf'', ''propertyIsEnumerable'',
      ''toString'', ''valueOf'', ''__proto__'', ''toLocaleString'']"

definition missing_field :: "tool_input \<Rightarrow> string \<Rightarrow> bool" where
  "missing_field inp field =
     (case map_of inp field of
        None \<Rightarrow> field \<notin> set object_prototype_keys
      | Some v \<Rightarrow> v = JNull)"

definition type_errors :: "string \<Rightarrow> string \<Rightarrow> json \<Rightarrow> string list" where
  "type_errors expectedType key v =
     (let actualType = js_typeof v in
      (if expectedType = ''string'' \<and> actualType \<noteq> ''string''
       then [''Field '' @ [CHR 0x27] @ key @ [CHR 0x27] @ '' expected string, got '' @ actualType]
       else []) @
      (if expectedType = ''number'' \<and> actualType \<noteq> ''number''
       then [''Field '' @ [CHR 0x27] @ key @ [CHR 0x27] @ '' expected number, got '' @ actualType]
       else []) @
      (if expectedType = ''boolean'' \<and> actualType \<noteq> ''boolean''
       then [''Field '' @ [CHR 0x27] @ key @ [CHR 0x27] @ '' expected boolean, got '' @ actualType]
       else []))"

definition validateToolInput :: "tool \<Rightarrow> tool_input \<Rightarrow> validation_result" where
  "validateToolInput t inp =
     (let schema = inputSchema t;
          errors1 =
            (case required schema of
               None \<Rightarrow> []
             | Some req \<Rightarrow>
                 concat (map (\<lambda>field. if missing_field inp field
                                        then [''Missing required field: '' @ field] else [])
                             req));
          errors2 =
            concat (map (\<lambda>(key, v).
                      case map_of (properties schema) key of
                        None \<Rightarrow> []
                      | Some None \<Rightarrow> []
                      | Some (Some expectedType) \<Rightarrow>
                          if expectedType \<noteq> [] \<and> v \<noteq> JNull then type_errors expectedType key v
                          else [])
                    inp)
      in \<lparr>valid = (errors1 @ errors2 = []), errors = errors1 @ errors2\<rparr>)"

section \<open>The agent loop (agent-loop module)\<close>

record agent_config =
  maxTokens :: nat
  maxTurns :: nat
  toolTimeoutMs :: nat
  confirmDestructive :: bool
  contextWindowTokens :: nat

datatype loop_state = idle | calling_model | processing_tools | waiting_approval | error

record pending_approval =
  pa_toolId :: string
  pa_toolName :: string
  pa_input :: tool_input

text \<open>
  The state of an \<^verbatim>\<open>AgentLoop\<close> object, together with the events it has published on
  the bus so far (\<open>published\<close>, oldest first).
\<close>

record agent_loop =
  history :: "chat_message list"
  state :: loop_state
  totalTokensIn :: nat
  totalTokensOut :: nat
  pendingApproval :: "pending_approval option"
  abortController :: bool
  published :: "moth_event list"

text \<open>
  What the loop is given and what surrounds it.  A provider answers a request with a
  stream: the events it yields and, possibly, an exception thrown after them.  An
  approval request is answered from outside by a \<^verbatim>\<open>tool:approved\<close> or \<^verbatim>\<open>tool:denied\<close>
  event for the tool call, by \<^verbatim>\<open>cancel()\<close>, or never.  \<open>json_length\<close> is the length of
  \<^verbatim>\<open>JSON.stringify\<close> of a list of content blocks.
\<close>

datatype decision = Approved | Denied | Cancelled

record agent_env =
  provider :: "chat_message list \<Rightarrow> tool_input provider_event list \<times> js_error option"
  tools :: "tool list"
  config :: agent_config
  approval :: "string \<Rightarrow> decision option"
  json_length :: "content_block list \<Rightarrow> nat"

definition emit :: "moth_event \<Rightarrow> agent_loop \<Rightarrow> agent_loop" where
  "emit e a = a\<lparr>published := published a @ [e]\<rparr>"

definition toolMap :: "tool list \<Rightarrow> string \<Rightarrow> tool option" where
  "toolMap ts n = find (\<lambda>t. tool_name t = n) (rev ts)"

subsection \<open>Context trimming\<close>

text \<open>
  \<^verbatim>\<open>estimateTokens\<close> is \<^verbatim>\<open>Math.ceil(length / 4)\<close>.  The loop condition
  \<^verbatim>\<open>totalTokens > contextWindowTokens * 0.8\<close> is taken exactly, as
  \<open>5 * totalTokens > 4 * contextWindowTokens\<close>.
\<close>

definition estimateTokens :: "(content_block list \<Rightarrow> nat) \<Rightarrow> chat_message \<Rightarrow> nat" where
  "estimateTokens jl m =
     (case msg_content m of
        Plain s \<Rightarrow> (length s + 3) div 4
      | Blocks bs \<Rightarrow> (jl bs + 3) div 4)"

definition total_estimate :: "(content_block list \<Rightarrow> nat) \<Rightarrow> chat_message list \<Rightarrow> nat" where
  "total_estimate jl h = foldl (\<lambda>sum m. sum + estimateTokens jl m) 0 h"

function trim_loop ::
  "(content_block list \<Rightarrow> nat) \<Rightarrow> nat \<Rightarrow> chat_message list \<Rightarrow> int \<Rightarrow> nat
     \<Rightarrow> chat_message list \<times> int \<times> nat" where
  "trim_loop jl budget h totalTokens removed =
     (if length h > 2 \<and> 5 * totalTokens > 4 * int budget
      then trim_loop jl budget (take 1 h @ drop 2 h)
             (totalTokens - int (estimateTokens jl (h ! 1))) (removed + 1)
      else (h, totalTokens, removed))"
  by pat_completeness auto
termination
  by (relation "measure (\<lambda>(jl, budget, h, totalTokens, removed). length h)") auto

declare trim_loop.simps [simp del]

definition trimContextIfNeeded :: "agent_env \<Rightarrow> agent_loop \<Rightarrow> agent_loop" where
  "trimContextIfNeeded env a =
     (let totalTokens = total_estimate (json_length env) (history a) in
      if totalTokens \<le> contextWindowTokens (config env) then a
      else
        (case trim_loop (json_length env) (contextWindowTokens (config env)) (history a)
                (int totalTokens) 0 of
           (h, total', removed) \<Rightarrow>
             (let h' = (case history a of
                          [] \<Rightarrow> h
                        | first # _ \<Rightarrow> if (case h of [] \<Rightarrow> True | x # _ \<Rightarrow> x \<noteq> first)
                                       then first # h else h);
                  a1 = a\<lparr>history := h'\<rparr>
              in if removed > 0 then emit (SessionContextTrimmed removed) a1 else a1)))"


subsection \<open>Calling the model\<close>

record stream_acc =
  textAccumulator :: string
  toolCalls :: "(string \<times> string \<times> tool_input) list"
  usage :: token_usage

text \<open>
  The body of \<^verbatim>\<open>for await (const event of stream)\<close>: an \<^verbatim>\<open>error\<close> event is thrown
  and ends the iteration; the other events update the accumulators and publish.
\<close>

fun consume ::
  "tool_input provider_event list \<Rightarrow> stream_acc \<Rightarrow> agent_loop
     \<Rightarrow> js_error option \<times> stream_acc \<times> agent_loop" where
  "consume [] acc a = (None, acc, a)"
| "consume (TextDelta t # es) acc a =
     consume es (acc\<lparr>textAccumulator := textAccumulator acc @ t\<rparr>) (emit (AgentText t) a)"
| "consume (ToolCallEnd i n inp # es) acc a =
     consume es (acc\<lparr>toolCalls := toolCalls acc @ [(i, n, inp)]\<rparr>)
       (emit (AgentToolRequest i n inp) a)"
| "consume (Done u # es) acc a = consume es (acc\<lparr>usage := u\<rparr>) a"
| "consume (ErrorEvent e # es) acc a = (Some e, acc, a)"
| "consume (ToolCallStart i n # es) acc a = consume es acc a"
| "consume (ToolCallDelta i d # es) acc a = consume es acc a"

definition classify_error :: "js_error \<Rightarrow> js_error \<times> bool" where
  "classify_error err =
     (let msg = toLowerCase (err_message err);
          isRateLimit = (str_includes msg ''rate'' \<or> str_includes msg ''429''
                          \<or> str_includes msg ''too many'');
          isAuthError = (str_includes msg ''authentication'' \<or> str_includes msg ''401''
                          \<or> (str_includes msg ''invalid'' \<and> str_includes msg ''key''))
      in ((if isRateLimit then new_Error ''Rate limited. Wait a moment and try again.''
           else if isAuthError
                then new_Error ''API key is invalid or expired. Check your key and try again.''
                else err),
          \<not> isAuthError))"

definition model_failed :: "js_error \<Rightarrow> agent_loop \<Rightarrow> agent_loop" where
  "model_failed err a =
     (if err_name err = ''AbortError''
      then (emit (AgentError (new_Error ''Request cancelled.'') True) a)
             \<lparr>state := idle, abortController := False\<rparr>
      else (case classify_error err of
              (shown, recoverable) \<Rightarrow>
                (emit (AgentError shown recoverable) a)
                  \<lparr>state := error, abortController := False\<rparr>))"

definition callModel :: "agent_env \<Rightarrow> agent_loop \<Rightarrow> content_block list option \<times> agent_loop" where
  "callModel env a0 =
     (let a1 = emit AgentThinking (a0\<lparr>state := calling_model, abortController := True\<rparr>);
          acc0 = \<lparr>textAccumulator = [], toolCalls = [],
                  usage = \<lparr>inputTokens = 0, outputTokens = 0\<rparr>\<rparr>
      in case provider env (history a1) of
           (events, thrown) \<Rightarrow>
             (case consume events acc0 a1 of
                (Some err, acc, a2) \<Rightarrow> (None, model_failed err a2)
              | (None, acc, a2) \<Rightarrow>
                  (case thrown of
                     Some err \<Rightarrow> (None, model_failed err a2)
                   | None \<Rightarrow>
                       (let a3 = (if textAccumulator acc \<noteq> []
                                  then emit (AgentTextDone (textAccumulator acc)) a2 else a2);
                            a4 = a3\<lparr>totalTokensIn := totalTokensIn a3 + inputTokens (usage acc),
                                    totalTokensOut := totalTokensOut a3 + outputTokens (usage acc)\<rparr>;
                            a5 = emit (AgentTurnComplete (usage acc)) a4;
                            contentBlocks =
                              (if textAccumulator acc \<noteq> [] then [TextBlock (textAccumulator acc)]
                               else [])
                              @ map (\<lambda>(i, n, inp). ToolUse i n inp) (toolCalls acc);
                            a6 = a5\<lparr>history := history a5 @
                                     [\<lparr>msg_role = Assistant, msg_content = Blocks contentBlocks,
                                       msg_toolCallId = None\<rparr>]\<rparr>
                        in (Some contentBlocks, a6\<lparr>abortController := False\<rparr>)))))"

subsection \<open>Executing one tool\<close>

text \<open>
  \<^verbatim>\<open>requestApproval\<close> suspends until the decision arrives; \<open>None\<close> is a request that
  is never answered.  The bus handlers resolve the promise and leave the pending slot
  as it is; \<^verbatim>\<open>cancel()\<close> resolves it as denied, clears the slot and sets the state to
  \<open>idle\<close>.
\<close>

definition requestApproval ::
  "agent_env \<Rightarrow> string \<Rightarrow> string \<Rightarrow> tool_input \<Rightarrow> agent_loop \<Rightarrow> (bool \<times> agent_loop) option" where
  "requestApproval env toolId toolName inp a0 =
     (let a1 = emit (ToolApprovalRequired toolId toolName inp) (a0\<lparr>state := waiting_approval\<rparr>);
          a2 = a1\<lparr>pendingApproval :=
                    Some \<lparr>pa_toolId = toolId, pa_toolName = toolName, pa_input = inp\<rparr>\<rparr>
      in case approval env toolId of
           None \<Rightarrow> None
         | Some Approved \<Rightarrow> Some (True, a2)
         | Some Denied \<Rightarrow> Some (False, a2)
         | Some Cancelled \<Rightarrow> Some (False, a2\<lparr>pendingApproval := None, state := idle\<rparr>))"

text \<open>
  \<^verbatim>\<open>Promise.race\<close> of the tool against the timer, with the time that has passed since
  \<open>startTime\<close> when the race is settled.  The tool is started before the timer is set,
  so a tool that settles after exactly \<open>toolTimeoutMs\<close> settles the race before the
  timer fires; a tool that takes longer, or never settles, loses to the timer, which
  rejects after \<open>toolTimeoutMs\<close>.
\<close>

definition race :: "string \<Rightarrow> nat \<Rightarrow> exec_outcome \<Rightarrow> (string + tool_result) \<times> nat" where
  "race toolName timeoutMs outcome =
     (let timed_out = (Inl (''Tool '' @ toolName @ '' timed out after '' @ decimal timeoutMs @ ''ms''),
                       timeoutMs)
      in case outcome of
           Resolves d r \<Rightarrow> if d \<le> timeoutMs then (Inr r, d) else timed_out
         | Rejects d msg \<Rightarrow> if d \<le> timeoutMs then (Inl msg, d) else timed_out
         | NeverSettles \<Rightarrow> timed_out)"

definition run_tool :: "agent_env \<Rightarrow> tool \<Rightarrow> string \<Rightarrow> string \<Rightarrow> tool_input \<Rightarrow> agent_loop
     \<Rightarrow> tool_result \<times> agent_loop" where
  "run_tool env t toolId toolName inp a0 =
     (let a1 = emit (ToolExecuting toolId toolName) a0 in
      case race toolName (toolTimeoutMs (config env)) (execute t inp) of
        (Inr result, durationMs) \<Rightarrow>
          (result, emit (ToolComplete toolId (res_content result) (is_error result) durationMs) a1)
      | (Inl msg, durationMs) \<Rightarrow>
          (let result = \<lparr>res_content = ''Tool error: '' @ msg, res_isError = Some True\<rparr>
           in (result, emit (ToolComplete toolId (res_content result) True durationMs) a1)))"

definition executeTool ::
  "agent_env \<Rightarrow> string \<Rightarrow> string \<Rightarrow> tool_input \<Rightarrow> agent_loop \<Rightarrow> (tool_result \<times> agent_loop) option" where
  "executeTool env toolId toolName inp a =
     (case toolMap (tools env) toolName of
        None \<Rightarrow>
          (let result = \<lparr>res_content = ''Unknown tool: '' @ toolName, res_isError = Some True\<rparr>
           in Some (result, emit (ToolComplete toolId (res_content result) True 0) a))
      | Some t \<Rightarrow>
          (let validation = validateToolInput t inp in
           if \<not> valid validation then
             (let result = \<lparr>res_content = ''Invalid input for '' @ toolName @ '': ''
                                @ join_with '', '' (errors validation),
                             res_isError = Some True\<rparr>
              in Some (result, emit (ToolComplete toolId (res_content result) True 0) a))
           else if requiresConfirmation t \<and> confirmDestructive (config env) then
             (case requestApproval env toolId toolName inp a of
                None \<Rightarrow> None
              | Some (approved, a1) \<Rightarrow>
                  if \<not> approved then
                    (let result = \<lparr>res_content = ''Tool execution denied by user.'',
                                    res_isError = Some True\<rparr>
                     in Some (result, emit (ToolComplete toolId (res_content result) True 0) a1))
                  else Some (run_tool env t toolId toolName inp a1))
           else Some (run_tool env t toolId toolName inp a)))"

subsection \<open>Processing a user message\<close>

fun toolUses_of :: "content_block list \<Rightarrow> (string \<times> string \<times> tool_input) list" where
  "toolUses_of [] = []"
| "toolUses_of (ToolUse i n inp # bs) = (i, n, inp) # toolUses_of bs"
| "toolUses_of (b # bs) = toolUses_of bs"

fun run_tools ::
  "agent_env \<Rightarrow> (string \<times> string \<times> tool_input) list \<Rightarrow> content_block list \<Rightarrow> agent_loop
     \<Rightarrow> (content_block list \<times> agent_loop) option" where
  "run_tools env [] toolResultBlocks a = Some (toolResultBlocks, a)"
| "run_tools env ((i, n, inp) # rest) toolResultBlocks a =
     (case executeTool env i n inp a of
        None \<Rightarrow> None
      | Some (result, a1) \<Rightarrow>
          run_tools env rest
            (toolResultBlocks @ [ToolResultBlock i (res_content result) (is_error result)]) a1)"

text \<open>
  The loop \<^verbatim>\<open>while (turnsRemaining > 0)\<close>; it returns the value of \<open>turnsRemaining\<close>
  with which the loop is left.
\<close>

fun turns :: "agent_env \<Rightarrow> nat \<Rightarrow> agent_loop \<Rightarrow> (nat \<times> agent_loop) option" where
  "turns env 0 a = Some (0, a)"
| "turns env (Suc turnsRemaining) a =
     (case callModel env a of
        (None, a1) \<Rightarrow> Some (turnsRemaining, a1)
      | (Some responseBlocks, a1) \<Rightarrow>
          (let toolUses = toolUses_of responseBlocks in
           if toolUses = [] then Some (turnsRemaining, a1\<lparr>state := idle\<rparr>)
           else
             (case run_tools env toolUses [] (a1\<lparr>state := processing_tools\<rparr>) of
                None \<Rightarrow> None
              | Some (toolResultBlocks, a2) \<Rightarrow>
                  turns env turnsRemaining
                    (a2\<lparr>history := history a2 @
                          [\<lparr>msg_role = User, msg_content = Blocks toolResultBlocks,
                            msg_toolCallId = None\<rparr>]\<rparr>))))"

definition busy_error :: moth_event where
  "busy_error = AgentError (new_Error ''Agent is busy. Wait for current turn to complete.'') True"

definition max_turns_error :: "nat \<Rightarrow> moth_event" where
  "max_turns_error n =
     AgentError (new_Error (''Hit maximum turns ('' @ decimal n
                            @ ''). Stopping to prevent infinite loop.'')) True"

definition processMessage :: "agent_env \<Rightarrow> string \<Rightarrow> agent_loop \<Rightarrow> agent_loop option" where
  "processMessage env userMessage a =
     (if state a \<noteq> idle then Some (emit busy_error a)
      else
        (let a1 = a\<lparr>history := history a @
                       [\<lparr>msg_role = User, msg_content = Plain userMessage, msg_toolCallId = None\<rparr>]\<rparr>;
             a2 = trimContextIfNeeded env a1
         in case turns env (maxTurns (config env)) a2 of
              None \<Rightarrow> None
            | Some (turnsRemaining, a3) \<Rightarrow>
                (let a4 = (if turnsRemaining = 0
                           then emit (max_turns_error (maxTurns (config env))) a3 else a3)
                 in Some (a4\<lparr>state := idle\<rparr>))))"

definition cancel :: "agent_loop \<Rightarrow> agent_loop" where
  "cancel a = a\<lparr>pendingApproval := None, state := idle\<rparr>"

definition clearHistory :: "agent_loop \<Rightarrow> agent_loop" where
  "clearHistory a =
     emit SessionCleared (a\<lparr>history := [], state := idle, totalTokensIn := 0, totalTokensOut := 0\<rparr>)"


subsection \<open>Reading the published events and the history\<close>

fun completions :: "moth_event list \<Rightarrow> (string \<times> string \<times> bool \<times> nat) list" where
  "completions [] = []"
| "completions (ToolComplete i c e d # es) = (i, c, e, d) # completions es"
| "completions (x # es) = completions es"

fun agent_errors :: "moth_event list \<Rightarrow> (js_error \<times> bool) list" where
  "agent_errors [] = []"
| "agent_errors (AgentError e r # es) = (e, r) # agent_errors es"
| "agent_errors (x # es) = agent_errors es"

fun trimmed_events :: "moth_event list \<Rightarrow> nat list" where
  "trimmed_events [] = []"
| "trimmed_events (SessionContextTrimmed n # es) = n # trimmed_events es"
| "trimmed_events (x # es) = trimmed_events es"

definition published_since :: "agent_loop \<Rightarrow> agent_loop \<Rightarrow> moth_event list" where
  "published_since a a' = drop (length (published a)) (published a')"

definition is_tool_result :: "content_block \<Rightarrow> bool" where
  "is_tool_result b = (case b of ToolResultBlock i c e \<Rightarrow> True | _ \<Rightarrow> False)"

definition is_assistant_message :: "chat_message \<Rightarrow> bool" where
  "is_assistant_message m = (msg_role m = Assistant)"

definition is_tool_result_wrapper :: "chat_message \<Rightarrow> bool" where
  "is_tool_result_wrapper m =
     (msg_role m = User \<and>
      (case msg_content m of Blocks bs \<Rightarrow> bs \<noteq> [] \<and> list_all is_tool_result bs | Plain s \<Rightarrow> False))"

fun text_deltas :: "'i provider_event list \<Rightarrow> string list" where
  "text_deltas [] = []"
| "text_deltas (TextDelta t # es) = t # text_deltas es"
| "text_deltas (x # es) = text_deltas es"

fun tool_call_ends :: "'i provider_event list \<Rightarrow> (string \<times> string \<times> 'i) list" where
  "tool_call_ends [] = []"
| "tool_call_ends (ToolCallEnd i n inp # es) = (i, n, inp) # tool_call_ends es"
| "tool_call_ends (x # es) = tool_call_ends es"

fun error_events :: "'i provider_event list \<Rightarrow> js_error list" where
  "error_events [] = []"
| "error_events (ErrorEvent e # es) = e # error_events es"
| "error_events (x # es) = error_events es"

text \<open>
  A streamed turn that yields exactly one tool call and no text: the stream ends
  normally, has no \<^verbatim>\<open>error\<close> event, its text deltas are all empty, and it has one
  \<^verbatim>\<open>tool_call_end\<close>.
\<close>

definition tool_call_turn :: "'i provider_event list \<times> js_error option \<Rightarrow> bool" where
  "tool_call_turn s =
     (case s of (events, thrown) \<Rightarrow>
        thrown = None \<and> error_events events = [] \<and> concat (text_deltas events) = []
        \<and> length (tool_call_ends events) = 1)"


text \<open>Examples: a loop with the turn ceiling 2 whose provider asks for a tool in every turn.\<close>

definition plain_message :: "string \<Rightarrow> chat_message" where
  "plain_message s = \<lparr>msg_role = User, msg_content = Plain s, msg_toolCallId = None\<rparr>"

definition example_config :: agent_config where
  "example_config =
     \<lparr>maxTokens = 64, maxTurns = 2, toolTimeoutMs = 50, confirmDestructive = True,
      contextWindowTokens = 10\<rparr>"

definition example_env :: agent_env where
  "example_env =
     \<lparr>provider = (\<lambda>h. ([ToolCallEnd ''call_1'' ''missing_tool'' [],
                          Done \<lparr>inputTokens = 1, outputTokens = 1\<rparr>], None)),
      tools = [],
      config = example_config,
      approval = (\<lambda>i. Some Approved),
      json_length = (\<lambda>bs. 2)\<rparr>"

text \<open>
  Tools whose run is fixed in advance, for the examples, and an environment with three
  of them: with the timeout of 50 ms, \<^verbatim>\<open>quick\<close> resolves in time, \<^verbatim>\<open>slow\<close> does not, and
  \<^verbatim>\<open>edge\<close> rejects just in time.
\<close>

definition timed_tool :: "string \<Rightarrow> exec_outcome \<Rightarrow> tool" where
  "timed_tool n outcome =
     \<lparr>tool_name = n, tool_description = [],
      inputSchema = \<lparr>properties = [], required = None\<rparr>,
      requiresConfirmation = False, execute = (\<lambda>inp. outcome)\<rparr>"

definition tools_env :: agent_env where
  "tools_env =
     example_env\<lparr>tools :=
       [timed_tool ''quick'' (Resolves 7 \<lparr>res_content = ''ok'', res_isError = None\<rparr>),
        timed_tool ''slow'' (Resolves 70 \<lparr>res_content = ''late'', res_isError = None\<rparr>),
        timed_tool ''edge'' (Rejects 50 ''boom'')]\<rparr>"

definition fresh_agent :: agent_loop where
  "fresh_agent =
     \<lparr>history = [], state = idle, totalTokensIn = 0, totalTokensOut = 0,
      pendingApproval = None, abortController = False, published = []\<rparr>"

text \<open>
  For the proofs: from \<open>a\<close> to \<open>a'\<close> the history has grown by \<open>hs\<close> and events have been
  published, none of them an \<^verbatim>\<open>agent:error\<close>.
\<close>

definition advances :: "agent_loop \<Rightarrow> agent_loop \<Rightarrow> chat_message list \<Rightarrow> bool" where
  "advances a a' hs \<longleftrightarrow>
     history a' = history a @ hs \<and>
     (\<exists>evs. published a' = published a @ evs \<and> agent_errors evs = [])"

fun alternating :: "chat_message list \<Rightarrow> bool" where
  "alternating [] = True"
| "alternating [x] = False"
| "alternating (x # y # rest) =
     (is_assistant_message x \<and> is_tool_result_wrapper y \<and> alternating rest)"


section \<open>The event bus (event-bus module)\<close>

text \<open>
  A handler, called with an event, returns, throws, or returns a promise that later
  resolves or rejects.  The bus keeps its handlers by event type, in subscription
  order, and a history of at most \<open>maxHistory\<close> events.  The handlers of a type are a
  \<^verbatim>\<open>Set\<close> of function objects in the code, and functions have no identity here: \<open>on\<close>
  is the subscription of a function that is not yet subscribed for the type
  (subscribing the same function object again changes nothing in the code).  The rejection of a handler's
  promise is reported by a \<^verbatim>\<open>catch\<close> callback that runs after \<open>emit\<close> has returned;
  \<open>rejections\<close> collects the errors waiting to be reported.
\<close>

datatype handler_result = Returns | Throws js_error | ReturnsPromise "js_error option"

type_synonym handler = "moth_event \<Rightarrow> handler_result"

record event_bus =
  handlers :: "string \<Rightarrow> handler list"
  bus_history :: "moth_event list"
  maxHistory :: nat
  rejections :: "js_error list"

definition event_type :: "moth_event \<Rightarrow> string" where
  "event_type e =
     (case e of
        UserInput m \<Rightarrow> ''user:input''
      | AgentThinking \<Rightarrow> ''agent:thinking''
      | AgentText d \<Rightarrow> ''agent:text''
      | AgentTextDone t \<Rightarrow> ''agent:text:done''
      | AgentToolRequest i n inp \<Rightarrow> ''agent:tool_request''
      | AgentToolResult i c e \<Rightarrow> ''agent:tool_result''
      | AgentTurnComplete u \<Rightarrow> ''agent:turn_complete''
      | AgentError e r \<Rightarrow> ''agent:error''
      | ToolApprovalRequired i n inp \<Rightarrow> ''tool:approval_required''
      | ToolApproved i \<Rightarrow> ''tool:approved''
      | ToolDenied i \<Rightarrow> ''tool:denied''
      | ToolExecuting i n \<Rightarrow> ''tool:executing''
      | ToolComplete i c e d \<Rightarrow> ''tool:complete''
      | SessionStarted i \<Rightarrow> ''session:started''
      | SessionCleared \<Rightarrow> ''session:cleared''
      | SessionContextTrimmed n \<Rightarrow> ''session:context_trimmed''
      | SystemError e f \<Rightarrow> ''system:error''
      | SystemShutdown r \<Rightarrow> ''system:shutdown'')"

definition new_bus :: event_bus where
  "new_bus = \<lparr>handlers = (\<lambda>t. []), bus_history = [], maxHistory = 1000, rejections = []\<rparr>"

definition on :: "string \<Rightarrow> handler \<Rightarrow> event_bus \<Rightarrow> event_bus" where
  "on t h b = b\<lparr>handlers := (handlers b)(t := handlers b t @ [h])\<rparr>"

definition push_history :: "nat \<Rightarrow> moth_event list \<Rightarrow> moth_event \<Rightarrow> moth_event list" where
  "push_history m hist e =
     (let h = hist @ [e] in if length h > m then drop (length h - m) h else h)"

definition record_event :: "moth_event \<Rightarrow> event_bus \<Rightarrow> event_bus" where
  "record_event e b = b\<lparr>bus_history := push_history (maxHistory b) (bus_history b) e\<rparr>"

text \<open>
  \<open>dispatch\<close> is the loop \<^verbatim>\<open>for (const handler of handlers)\<close> of \<open>emit\<close>; in its
  \<^verbatim>\<open>catch\<close> branch it calls \<open>emit\<close> again, which is \<open>record_event\<close> followed by the
  dispatch to the handlers of \<^verbatim>\<open>system:error\<close>.  Nothing bounds this recursion, so
  the model is a partial function: \<open>None\<close> is a call that does not return.
\<close>

partial_function (option) dispatch ::
  "event_bus \<Rightarrow> moth_event \<Rightarrow> handler list \<Rightarrow> event_bus option" where
  "dispatch b ev hs =
     (case hs of
        [] \<Rightarrow> Some b
      | h # rest \<Rightarrow>
          (case h ev of
             Returns \<Rightarrow> dispatch b ev rest
           | ReturnsPromise r \<Rightarrow>
               dispatch (b\<lparr>rejections := rejections b @ (case r of None \<Rightarrow> [] | Some e \<Rightarrow> [e])\<rparr>)
                 ev rest
           | Throws err \<Rightarrow>
               Option.bind
                 (dispatch (record_event (SystemError err False) b) (SystemError err False)
                    (handlers b ''system:error''))
                 (\<lambda>b'. dispatch b' ev rest)))"

declare dispatch.simps [code]

definition bus_emit :: "moth_event \<Rightarrow> event_bus \<Rightarrow> event_bus option" where
  "bus_emit ev b = dispatch (record_event ev b) ev (handlers b (event_type ev))"

text \<open>
  The \<^verbatim>\<open>catch\<close> callback of a rejected handler promise, run after \<open>emit\<close> has
  returned: it publishes the rejection as a \<^verbatim>\<open>system:error\<close> event.
\<close>

definition report_rejection :: "event_bus \<Rightarrow> event_bus option" where
  "report_rejection b =
     (case rejections b of
        [] \<Rightarrow> Some b
      | e # es \<Rightarrow> bus_emit (SystemError e False) (b\<lparr>rejections := es\<rparr>))"

text \<open>A handler that always throws, and a bus on which it listens to \<^verbatim>\<open>system:error\<close>.\<close>

definition thrower :: handler where
  "thrower = (\<lambda>ev. Throws (new_Error ''boom''))"

definition faulty_bus :: event_bus where
  "faulty_bus = on ''system:error'' thrower new_bus"

text \<open>The \<^verbatim>\<open>system:error\<close> events that \<open>dispatch\<close> publishes for the handlers that throw.\<close>

definition thrown_errors :: "moth_event \<Rightarrow> handler list \<Rightarrow> moth_event list" where
  "thrown_errors ev hs =
     concat (map (\<lambda>h. case h ev of Throws e \<Rightarrow> [SystemError e False] | _ \<Rightarrow> []) hs)"


section \<open>The OpenAI-compatible provider adapter (stream parsing)\<close>

text \<open>
  The payload of a data line, as the adapter reads it after \<^verbatim>\<open>JSON.parse\<close>: the
  fields of a chat-completions chunk, each of which may be absent.  \<^verbatim>\<open>JSON.parse\<close>
  belongs to the environment; the adapter is given \<open>parse_chunk\<close> for a data line's
  payload and \<open>parse_args\<close> for the argument text of a tool call, and \<open>None\<close> stands
  for a \<^verbatim>\<open>SyntaxError\<close>.
\<close>

record tc_function =
  fn_name :: "string option"
  fn_arguments :: "string option"

record tool_call_delta =
  tc_index :: "nat option"
  tc_id :: "string option"
  tc_function :: "tc_function option"

record delta =
  d_content :: "string option"
  d_tool_calls :: "tool_call_delta list option"

record choice =
  c_delta :: "delta option"
  c_finish_reason :: "string option"

record usage_json =
  prompt_tokens :: "nat option"
  input_tokens :: "nat option"
  completion_tokens :: "nat option"
  output_tokens :: "nat option"

record chunk =
  ch_usage :: "usage_json option"
  ch_choices :: "choice list option"

record pending_call =
  pc_id :: string
  pc_name :: string
  pc_args :: string

text \<open>
  The local variables of \<^verbatim>\<open>streamChat\<close> besides the line buffer.  \<open>pendingToolCalls\<close>
  is a \<^verbatim>\<open>Map\<close>: it is read in the order in which its keys were first set.
\<close>

record adapter =
  ad_inputTokens :: nat
  ad_outputTokens :: nat
  pendingToolCalls :: "(nat \<times> pending_call) list"


definition truthy :: "string option \<Rightarrow> bool" where
  "truthy s = (case s of None \<Rightarrow> False | Some x \<Rightarrow> x \<noteq> [])"

definition or_empty :: "string option \<Rightarrow> string" where
  "or_empty s = (case s of None \<Rightarrow> [] | Some x \<Rightarrow> x)"

definition or_else :: "nat option \<Rightarrow> nat option \<Rightarrow> nat" where
  "or_else a b =
     (case a of
        Some n \<Rightarrow> if n \<noteq> 0 then n else (case b of Some m \<Rightarrow> m | None \<Rightarrow> 0)
      | None \<Rightarrow> (case b of Some m \<Rightarrow> m | None \<Rightarrow> 0))"

fun map_set :: "nat \<Rightarrow> pending_call \<Rightarrow> (nat \<times> pending_call) list \<Rightarrow> (nat \<times> pending_call) list" where
  "map_set k v [] = [(k, v)]"
| "map_set k v ((k', v') # rest) =
     (if k = k' then (k, v) # rest else (k', v') # map_set k v rest)"

definition fn_name_of :: "tool_call_delta \<Rightarrow> string option" where
  "fn_name_of tc = (case tc_function tc of None \<Rightarrow> None | Some f \<Rightarrow> fn_name f)"

definition fn_arguments_of :: "tool_call_delta \<Rightarrow> string option" where
  "fn_arguments_of tc = (case tc_function tc of None \<Rightarrow> None | Some f \<Rightarrow> fn_arguments f)"

definition handle_tool_call ::
  "tool_call_delta \<Rightarrow> adapter \<Rightarrow> json provider_event list \<times> adapter" where
  "handle_tool_call tc st =
     (let index = (case tc_index tc of None \<Rightarrow> 0 | Some i \<Rightarrow> i) in
      if truthy (tc_id tc) then
        (let st' = st\<lparr>pendingToolCalls :=
                       map_set index
                         \<lparr>pc_id = or_empty (tc_id tc), pc_name = or_empty (fn_name_of tc),
                          pc_args = or_empty (fn_arguments_of tc)\<rparr>
                         (pendingToolCalls st)\<rparr>
         in if truthy (fn_name_of tc)
            then ([ToolCallStart (or_empty (tc_id tc)) (or_empty (fn_name_of tc))], st')
            else ([], st'))
      else
        (case map_of (pendingToolCalls st) index of
           None \<Rightarrow> ([], st)
         | Some pending \<Rightarrow>
             (let p1 = (if truthy (fn_name_of tc) then pending\<lparr>pc_name := or_empty (fn_name_of tc)\<rparr>
                        else pending)
              in if truthy (fn_arguments_of tc)
                 then ([ToolCallDelta (pc_id p1) (or_empty (fn_arguments_of tc))],
                       st\<lparr>pendingToolCalls :=
                            map_set index (p1\<lparr>pc_args := pc_args p1 @ or_empty (fn_arguments_of tc)\<rparr>)
                              (pendingToolCalls st)\<rparr>)
                 else ([], st\<lparr>pendingToolCalls := map_set index p1 (pendingToolCalls st)\<rparr>))))"

fun handle_tool_calls ::
  "tool_call_delta list \<Rightarrow> adapter \<Rightarrow> json provider_event list \<times> adapter" where
  "handle_tool_calls [] st = ([], st)"
| "handle_tool_calls (tc # tcs) st =
     (case handle_tool_call tc st of
        (evs, st1) \<Rightarrow> (case handle_tool_calls tcs st1 of (evs', st2) \<Rightarrow> (evs @ evs', st2)))"

definition parse_or_empty :: "(string \<Rightarrow> json option) \<Rightarrow> string \<Rightarrow> json" where
  "parse_or_empty parse_args args = (case parse_args args of None \<Rightarrow> JObj [] | Some v \<Rightarrow> v)"

definition finish_events ::
  "(string \<Rightarrow> json option) \<Rightarrow> (nat \<times> pending_call) list \<Rightarrow> json provider_event list" where
  "finish_events parse_args pend =
     map (\<lambda>(k, tc). ToolCallEnd (pc_id tc) (pc_name tc) (parse_or_empty parse_args (pc_args tc))) pend"

text \<open>The part of the loop body after \<^verbatim>\<open>JSON.parse(jsonStr)\<close> has succeeded.\<close>

definition handle_chunk ::
  "(string \<Rightarrow> json option) \<Rightarrow> chunk \<Rightarrow> adapter \<Rightarrow> json provider_event list \<times> adapter" where
  "handle_chunk parse_args parsed st0 =
     (let st1 = (case ch_usage parsed of
                   None \<Rightarrow> st0
                 | Some u \<Rightarrow>
                     st0\<lparr>ad_inputTokens := or_else (prompt_tokens u) (input_tokens u),
                         ad_outputTokens := or_else (completion_tokens u) (output_tokens u)\<rparr>)
      in case (case ch_choices parsed of None \<Rightarrow> None | Some [] \<Rightarrow> None | Some (c # cs) \<Rightarrow> Some c) of
           None \<Rightarrow> ([], st1)
         | Some ch \<Rightarrow>
             (case c_delta ch of
                None \<Rightarrow> ([], st1)
              | Some d \<Rightarrow>
                  (let text_events = (if truthy (d_content d)
                                      then [TextDelta (or_empty (d_content d))] else [])
                   in case (case d_tool_calls d of
                              None \<Rightarrow> ([], st1)
                            | Some tcs \<Rightarrow> handle_tool_calls tcs st1) of
                        (tool_events, st2) \<Rightarrow>
                          (text_events @ tool_events
                             @ (if truthy (c_finish_reason ch)
                                then finish_events parse_args (pendingToolCalls st2) else []),
                           st2))))"











































section \<open>Properties of the path sandbox\<close>

lemma split_acc_nosep: "s \<in> set (split_acc c cur xs) \<Longrightarrow> c \<notin> set cur \<Longrightarrow> c \<notin> set s"
proof (induction xs arbitrary: cur)
  case Nil then show ?case by simp
next
  case (Cons x xs)
  show ?case
  proof (cases "x = c")
    case True
    with Cons.prems have "s = rev cur \<or> s \<in> set (split_acc c [] xs)" by simp
    then show ?thesis using Cons.IH[of "[]"] Cons.prems(2) by auto
  next
    case False
    with Cons.prems have "s \<in> set (split_acc c (x # cur) xs)" by simp
    then show ?thesis using Cons.IH[of "x # cur"] Cons.prems(2) False by auto
  qed
qed

lemma split_on_nosep: "s \<in> set (split_on c xs) \<Longrightarrow> c \<notin> set s"
  using split_acc_nosep[of s c "[]" xs] by (auto simp: split_on_def)

lemma split_acc_append_nosep:
  "c \<notin> set a \<Longrightarrow> split_acc c cur (a @ c # b) = (rev cur @ a) # split_acc c [] b"
  by (induction a arbitrary: cur) auto

lemma split_acc_nosep_whole: "c \<notin> set a \<Longrightarrow> split_acc c cur a = [rev cur @ a]"
  by (induction a arbitrary: cur) auto

lemma split_on_join:
  "xs \<noteq> [] \<Longrightarrow> \<forall>x \<in> set xs. c \<notin> set x \<Longrightarrow> split_on c (join_with [c] xs) = xs"
proof (induction "[c]" xs rule: join_with.induct)
  case 1 then show ?case by simp
next
  case (2 x) then show ?case by (simp add: split_on_def split_acc_nosep_whole)
next
  case (3 x y ys)
  then show ?case by (simp add: split_on_def split_acc_append_nosep)
qed

lemma join_split_acc: "join_with [c] (split_acc c cur s) = rev cur @ s"
proof (induction s arbitrary: cur)
  case Nil then show ?case by simp
next
  case (Cons x xs)
  show ?case
  proof (cases "x = c")
    case True
    then show ?thesis using Cons.IH[of "[]"]
      by (cases "split_acc c [] xs") auto
  next
    case False then show ?thesis using Cons.IH[of "x # cur"] by simp
  qed
qed

lemma join_split: "join_with [c] (split_on c s) = s"
  by (simp add: split_on_def join_split_acc)

lemma normSegs_clean_id:
  "list_all clean_seg ss \<Longrightarrow> normSegs allow acc ss = rev ss @ acc"
  by (induction ss arbitrary: acc) (auto simp: clean_seg_def)

lemma normSegs_False_clean:
  "list_all clean_seg acc \<Longrightarrow> \<forall>s \<in> set ss. CHR ''/'' \<notin> set s \<Longrightarrow>
   list_all clean_seg (normSegs False acc ss)"
  by (induction ss arbitrary: acc) (auto simp: clean_seg_def split: list.splits)

lemma normalizeString_abs_clean:
  "\<exists>segs. normalizeString path False = join_with sep segs \<and> list_all clean_seg segs"
  unfolding normalizeString_def
  using normSegs_False_clean[of "[]" "split_on CHR ''/'' path"] split_on_nosep
  by (metis list.pred_inject(1) list_all_rev)

lemma join_empty_iff: "list_all clean_seg segs \<Longrightarrow> join_with sep segs = [] \<longleftrightarrow> segs = []"
  by (induction sep segs rule: join_with.induct) (auto simp: clean_seg_def sep_def)

lemma normal_abs_join: "list_all clean_seg segs \<Longrightarrow> normal_abs (sep @ join_with sep segs)"
  apply (cases "segs = []")
   apply (simp add: normal_abs_def isAbsolute_def sep_def)
  using split_on_join[of segs "CHR ''/''"]
  apply (auto simp: normal_abs_def isAbsolute_def sep_def list_all_iff clean_seg_def)
  done

lemma normal_abs_cases:
  "normal_abs q \<Longrightarrow> \<exists>segs. q = sep @ join_with sep segs \<and> list_all clean_seg segs"
proof -
  assume n: "normal_abs q"
  show ?thesis
  proof (cases "q = sep")
    case True
    then have "q = sep @ join_with sep [] \<and> list_all clean_seg []" by simp
    then show ?thesis by blast
  next
    case False
    with n have c: "list_all clean_seg (split_on CHR ''/'' (tl q))" and a: "isAbsolute q"
      by (auto simp: normal_abs_def)
    have "join_with sep (split_on CHR ''/'' (tl q)) = tl q"
      by (simp add: join_split sep_def)
    moreover from a have "q = sep @ tl q" by (cases q) (auto simp: isAbsolute_def sep_def)
    ultimately show ?thesis using c by metis
  qed
qed


lemma resolve_loop_abs:
  "isAbsolute cwd \<Longrightarrow> snd (resolve_loop (ps @ [cwd]) acc) = True"
  by (induction ps arbitrary: acc) (auto simp: isAbsolute_def split: list.splits)

lemma path_resolve_normal_abs:
  assumes "isAbsolute cwd"
  shows "normal_abs (path_resolve cwd args)"
proof -
  obtain rp ab where r: "resolve_loop (rev args @ [cwd]) [] = (rp, ab)"
    by (cases "resolve_loop (rev args @ [cwd]) []") auto
  with resolve_loop_abs[OF assms, of "rev args" "[]"] have "ab = True" by simp
  with r have "path_resolve cwd args = sep @ normalizeString rp False"
    by (simp add: path_resolve_def)
  then show ?thesis using normalizeString_abs_clean[of rp] normal_abs_join by auto
qed

lemma last_join_clean:
  "segs \<noteq> [] \<Longrightarrow> list_all clean_seg segs \<Longrightarrow> last (join_with sep segs) \<noteq> CHR ''/''"
proof (induction sep segs rule: join_with.induct)
  case 1 then show ?case by simp
next
  case (2 x)
  then have "x \<noteq> []" "CHR ''/'' \<notin> set x" by (auto simp: clean_seg_def)
  then have "last x \<in> set x" "CHR ''/'' \<notin> set x" by simp_all
  then show ?case by auto
next
  case (3 x y ys)
  then have "join_with sep (y # ys) \<noteq> []" using join_empty_iff[of "y # ys"] by simp
  then show ?case using 3 by simp
qed

lemma split_on_abs_join:
  assumes "list_all clean_seg segs" "segs \<noteq> []"
  shows "split_on CHR ''/'' (sep @ join_with sep segs) = [] # segs"
  using split_on_join[of segs "CHR ''/''"] assms
  by (simp add: split_on_def sep_def list_all_iff clean_seg_def)

lemma filter_clean: "list_all clean_seg rs \<Longrightarrow> filter (\<lambda>s. s \<noteq> []) rs = rs"
  by (induction rs) (auto simp: clean_seg_def)

lemma normalizeString_clean_join:
  assumes "list_all clean_seg segs"
  shows "normalizeString (sep @ join_with sep segs) False = join_with sep segs"
proof (cases "segs = []")
  case True
  then show ?thesis by (simp add: normalizeString_def split_on_def sep_def)
next
  case False
  have "split_on CHR ''/'' (sep @ join_with sep segs) = [] # segs"
    using split_on_join[of segs "CHR ''/''"] False assms
    by (simp add: split_on_def sep_def list_all_iff clean_seg_def)
  then show ?thesis using assms
    by (simp add: normalizeString_def normSegs_clean_id)
qed

lemma path_normalize_normal_abs:
  assumes "normal_abs q"
  shows "path_normalize q = q"
proof -
  from normal_abs_cases[OF assms] obtain segs where
    q: "q = sep @ join_with sep segs" and c: "list_all clean_seg segs" by blast
  have a: "isAbsolute q" using assms by (simp add: normal_abs_def)
  have ne: "q \<noteq> []" using q by (simp add: sep_def)
  have n: "normalizeString q False = join_with sep segs"
    using q c normalizeString_clean_join by simp
  show ?thesis
  proof (cases "segs = []")
    case True
    then show ?thesis using q a ne n by (simp add: path_normalize_def)
  next
    case False
    then have "join_with sep segs \<noteq> []" using c join_empty_iff by simp
    moreover have "last q \<noteq> CHR ''/''"
      using last_join_clean[OF False c] q \<open>join_with sep segs \<noteq> []\<close> by simp
    ultimately show ?thesis using q a ne n by (simp add: path_normalize_def Let_def)
  qed
qed


lemma split_on_prefix:
  assumes "list_all clean_seg rs" "rs \<noteq> []"
  shows "prefix rs (split_on CHR ''/'' (join_with sep rs @ sep @ rest))"
  using assms
proof (induction sep rs rule: join_with.induct)
  case 1 then show ?case by simp
next
  case (2 x)
  then show ?case by (simp add: split_on_def sep_def split_acc_append_nosep clean_seg_def)
next
  case (3 x y ys)
  then show ?case by (simp add: split_on_def sep_def split_acc_append_nosep clean_seg_def)
qed

lemma setProjectRoot_normal_abs: "isAbsolute cwd \<Longrightarrow> normal_abs (setProjectRoot cwd root)"
  unfolding setProjectRoot_def by (rule path_resolve_normal_abs)

text \<open>
  Claim C1.  For a project root \<open>r\<close> that is an absolute normalised path (what
  \<open>setProjectRoot\<close> stores, see \<open>setProjectRoot_normal_abs\<close>) and every input path
  \<open>p\<close>, \<open>resolveSafePath\<close> either throws \<open>PathTraversalError\<close> or returns an absolute
  normalised path that is \<open>r\<close> itself or starts with \<open>r\<close> followed by the separator; the
  directory names of the returned path then extend those of the root, so the path
  never lies outside the root, whatever \<^verbatim>\<open>..\<close> segments or absolute prefix \<open>p\<close> has.
\<close>

theorem resolveSafePath_confined:
  assumes "isAbsolute cwd" and "normal_abs r"
  shows "case resolveSafePath cwd r p of
           Inl e \<Rightarrow> e = PathTraversalError p r
         | Inr q \<Rightarrow> (q = r \<or> prefix (r @ sep) q) \<and> normal_abs q \<and>
                    prefix (segments r) (segments q)"
proof -
  let ?q = "path_resolve cwd [r, p]"
  have nq: "normal_abs ?q" using assms(1) by (rule path_resolve_normal_abs)
  then have id: "path_normalize ?q = ?q" by (rule path_normalize_normal_abs)
  show ?thesis
  proof (cases "\<not> prefix (r @ sep) ?q \<and> ?q \<noteq> r")
    case True
    then show ?thesis by (simp add: resolveSafePath_def id Let_def)
  next
    case False
    then have res: "resolveSafePath cwd r p = Inr ?q"
      by (auto simp add: resolveSafePath_def id Let_def)
    have "prefix (segments r) (segments ?q)"
    proof (cases "?q = r")
      case True then show ?thesis by simp
    next
      case ne: False
      with False obtain rest where rest: "?q = r @ sep @ rest" by (auto simp: prefix_def)
      from normal_abs_cases[OF assms(2)] obtain rs where
        r: "r = sep @ join_with sep rs" and c: "list_all clean_seg rs" by blast
      show ?thesis
      proof (cases "rs = []")
        case True
        then show ?thesis using r by (simp add: segments_def split_on_def sep_def)
      next
        case nonempty: False
        have sr: "segments r = rs"
          using r c nonempty by (simp add: segments_def split_on_abs_join filter_clean)
        have "split_on CHR ''/'' ?q = [] # split_on CHR ''/'' (join_with sep rs @ sep @ rest)"
          using rest r by (simp add: split_on_def sep_def)
        then have "segments ?q = filter (\<lambda>s. s \<noteq> []) (split_on CHR ''/'' (join_with sep rs @ sep @ rest))"
          by (simp add: segments_def)
        moreover have "prefix (filter (\<lambda>s. s \<noteq> []) rs)
            (filter (\<lambda>s. s \<noteq> []) (split_on CHR ''/'' (join_with sep rs @ sep @ rest)))"
          using split_on_prefix[OF c nonempty] by (rule filter_mono_prefix)
        ultimately show ?thesis using sr c by (simp add: filter_clean)
      qed
    qed
    with res nq False show ?thesis by auto
  qed
qed


text \<open>The theorem at a path that climbs out of the root and back into it.\<close>

theorem resolveSafePath_confined_witness:
  "isAbsolute ''/home/u'' \<and> normal_abs ''/home/u/proj'' \<and>
   resolveSafePath ''/home/u'' ''/home/u/proj'' ''../proj/a/./b//c/'' = Inr ''/home/u/proj/a/b/c'' \<and>
   prefix (''/home/u/proj'' @ sep) ''/home/u/proj/a/b/c'' \<and>
   normal_abs ''/home/u/proj/a/b/c'' \<and>
   prefix (segments ''/home/u/proj'') (segments ''/home/u/proj/a/b/c'')"
proof -
  have a: "isAbsolute ''/home/u''" by (simp add: isAbsolute_def)
  have n: "normal_abs ''/home/u/proj''" by code_simp
  have e: "resolveSafePath ''/home/u'' ''/home/u/proj'' ''../proj/a/./b//c/'' = Inr ''/home/u/proj/a/b/c''"
    by code_simp
  have t: "(''/home/u/proj/a/b/c'' = ''/home/u/proj'' \<or> prefix (''/home/u/proj'' @ sep) ''/home/u/proj/a/b/c'') \<and>
        normal_abs ''/home/u/proj/a/b/c'' \<and>
        prefix (segments ''/home/u/proj'') (segments ''/home/u/proj/a/b/c'')"
    using resolveSafePath_confined[OF a n, of "''../proj/a/./b//c/''"] by (simp only: e sum.case)
  from t have p: "prefix (''/home/u/proj'' @ sep) ''/home/u/proj/a/b/c''" by simp
  from t have q: "normal_abs ''/home/u/proj/a/b/c''"
    and s: "prefix (segments ''/home/u/proj'') (segments ''/home/u/proj/a/b/c'')" by simp_all
  show ?thesis using a n e p q s by (intro conjI)
qed

section \<open>Properties of the edit tool\<close>

lemma countLoop_scan_count:
  "pat \<noteq> [] \<Longrightarrow> countLoop s pat n f = Some (n + scan_count s pat f)"
proof (induction s pat f arbitrary: n rule: scan_count.induct)
  case (1 s pat f)
  show ?case
  proof (cases "indexOf s pat f")
    case None
    then show ?thesis using "1.prems"
      by (subst countLoop.simps, subst scan_count.simps) simp
  next
    case (Some idx)
    from "1.IH"[OF "1.prems" Some "1.prems", of "n + 1"] Some "1.prems"
    show ?thesis by (subst countLoop.simps, subst scan_count.simps) simp
  qed
qed

lemma countLoop_Some_nonempty:
  assumes "countLoop s pat n f = Some y"
  shows "pat \<noteq> []"
proof (rule countLoop.raw_induct[where P = "\<lambda>s pat n f y. pat \<noteq> []", OF _ assms])
  fix g :: "string \<Rightarrow> string \<Rightarrow> nat \<Rightarrow> nat \<Rightarrow> nat option" and s pat n f y
  assume ih: "\<And>s pat n f y. g s pat n f = Some y \<Longrightarrow> pat \<noteq> []"
    and b: "(case indexOf s pat f of None \<Rightarrow> Some n
             | Some idx \<Rightarrow> g s pat (n + 1) (idx + length pat)) = Some y"
  show "pat \<noteq> []"
  proof
    assume "pat = []"
    with b have "g s [] (n + 1) (min f (length s) + 0) = Some y"
      by (simp add: indexOf_empty)
    from ih[OF this] show False by simp
  qed
qed

lemma countLoop_empty_diverges: "countLoop s [] n f = None"
  using countLoop_Some_nonempty[of s "[]" n f] by (cases "countLoop s [] n f") auto


lemma scan_count_zero_iff:
  assumes "pat \<noteq> []"
  shows "scan_count s pat f = 0 \<longleftrightarrow> (\<forall>j. min f (length s) \<le> j \<longrightarrow> \<not> occurs_at s pat j)"
proof (cases "indexOf s pat f")
  case None
  then show ?thesis using assms indexOf_None[OF None] by (subst scan_count.simps) simp
next
  case (Some i)
  from indexOf_Some[OF Some] have "occurs_at s pat i" "min f (length s) \<le> i" by auto
  then show ?thesis using assms Some by (subst scan_count.simps) auto
qed

lemma scan_count_ge2_iff:
  assumes "pat \<noteq> []"
  shows "2 \<le> scan_count s pat 0 \<longleftrightarrow>
         (\<exists>i j. occurs_at s pat i \<and> occurs_at s pat j \<and> i + length pat \<le> j)"
proof
  assume ge: "2 \<le> scan_count s pat 0"
  then obtain i where i: "indexOf s pat 0 = Some i"
    using assms by (subst (asm) scan_count.simps) (auto split: option.splits)
  with ge assms have "scan_count s pat (i + length pat) \<noteq> 0"
    by (subst (asm) scan_count.simps) auto
  then obtain j where "min (i + length pat) (length s) \<le> j" "occurs_at s pat j"
    using scan_count_zero_iff[OF assms, of s "i + length pat"] by auto
  moreover have oi: "occurs_at s pat i" using indexOf_Some(1)[OF i] .
  moreover have "i + length pat \<le> length s" using occurs_at_bound[OF assms oi] .
  ultimately show "\<exists>i j. occurs_at s pat i \<and> occurs_at s pat j \<and> i + length pat \<le> j"
    by auto
next
  assume "\<exists>i j. occurs_at s pat i \<and> occurs_at s pat j \<and> i + length pat \<le> j"
  then obtain i j where oi: "occurs_at s pat i" and oj: "occurs_at s pat j"
    and ij: "i + length pat \<le> j" by blast
  obtain i0 where i0: "indexOf s pat 0 = Some i0"
    using indexOf_None[of s pat 0 i] oi by (cases "indexOf s pat 0") auto
  have "i0 \<le> i" using indexOf_Some(3)[OF i0, of i] oi by (cases "i0 \<le> i") auto
  then have "min (i0 + length pat) (length s) \<le> j" using ij by simp
  then have "scan_count s pat (i0 + length pat) \<noteq> 0"
    using scan_count_zero_iff[OF assms, of s "i0 + length pat"] oj by blast
  then show "2 \<le> scan_count s pat 0"
    using i0 assms by (subst scan_count.simps) simp
qed

lemma scan_count_unique:
  assumes "pat \<noteq> []" and "occurs_at s pat i" and "\<And>j. occurs_at s pat j \<Longrightarrow> j = i"
  shows "scan_count s pat 0 = 1"
proof -
  have "scan_count s pat 0 \<noteq> 0"
    using scan_count_zero_iff[OF assms(1), of s 0] assms(2) by auto
  moreover have "\<not> 2 \<le> scan_count s pat 0"
  proof
    assume "2 \<le> scan_count s pat 0"
    then obtain a b where "occurs_at s pat a" "occurs_at s pat b" "a + length pat \<le> b"
      using scan_count_ge2_iff[OF assms(1)] by blast
    moreover from assms(1) have "0 < length pat" by simp
    ultimately show False using assms(3)[of a] assms(3)[of b] by simp
  qed
  ultimately show ?thesis by simp
qed

lemma catch_result_error [simp]: "is_error (catch_result inputPath msg)"
  by (simp add: catch_result_def is_error_def)

lemma edited_result_ok [simp]: "\<not> is_error (edited_result safePath oldStr newStr)"
  by (simp add: edited_result_def Let_def is_error_def)

lemma atomic_write_ok_iff:
  "(\<exists>fs'. atomic_write f fs tmp sp c = Inr fs') \<longleftrightarrow>
     writeFile_fault f = None \<and> (rename_fault f = None \<or> copyFile_fault f = None)"
  by (auto simp: atomic_write_def writeFile_def rename_def copyFile_def
           split: option.splits sum.splits prod.splits)

lemma atomic_write_target:
  "atomic_write f fs tmp sp c = Inr fs' \<Longrightarrow> rename_fault f = None \<or> tmp \<noteq> sp \<Longrightarrow>
   fs' sp = Some (File c)"
  by (auto simp: atomic_write_def writeFile_def rename_def copyFile_def unlink_def
           split: option.splits sum.splits prod.splits if_splits)

lemma atomic_write_goes_through:
  assumes "writeFile_fault f = None"
    and "rename_fault f = None \<or> (copyFile_fault f = None \<and> tmp \<noteq> sp)"
  shows "\<exists>fs'. atomic_write f fs tmp sp c = Inr fs' \<and> fs' sp = Some (File c)"
proof -
  from assms have "writeFile_fault f = None \<and> (rename_fault f = None \<or> copyFile_fault f = None)"
    by auto
  then obtain fs' where a: "atomic_write f fs tmp sp c = Inr fs'"
    using atomic_write_ok_iff[of f fs tmp sp c] by auto
  from assms(2) have "rename_fault f = None \<or> tmp \<noteq> sp" by auto
  from atomic_write_target[OF a this] a show ?thesis by auto
qed





lemma editFile_execute_counted:
  assumes "old_string inp \<noteq> new_string inp"
    and "resolveSafePath (env_cwd env) (env_root env) (in_path inp) = Inr safePath"
    and "readFile fs safePath = Inr c"
    and "countLoop c (old_string inp) 0 0 = Some n"
  shows "n \<noteq> 1 \<Longrightarrow>
           \<exists>msg. editFile_execute env fs inp = Some (\<lparr>res_content = msg, res_isError = Some True\<rparr>, fs)"
    and "n = 1 \<Longrightarrow>
           editFile_execute env fs inp =
             (case atomic_write (env_faults env) fs (env_tmpPath env) safePath
                     (js_replace c (old_string inp) (new_string inp)) of
                Inl (msg, fs') \<Rightarrow> Some (catch_result (in_path inp) msg, fs')
              | Inr fs' \<Rightarrow> Some (edited_result safePath (old_string inp) (new_string inp), fs'))"
  using assms by (auto simp add: editFile_execute_def Let_def)

lemma editFile_execute_stuck:
  assumes "old_string inp \<noteq> new_string inp"
    and "resolveSafePath (env_cwd env) (env_root env) (in_path inp) = Inr safePath"
    and "readFile fs safePath = Inr c"
    and "countLoop c (old_string inp) 0 0 = None"
  shows "editFile_execute env fs inp = None"
  using assms by (simp add: editFile_execute_def Let_def)








text \<open>
  With an empty \<open>old_string\<close> (and a non-empty \<open>new_string\<close>) on a readable file the
  counting loop never ends: \<^verbatim>\<open>indexOf\<close> finds the empty string where the search
  starts, and the search position does not advance.
\<close>

lemma editFile_execute_empty_old_string:
  assumes "old_string inp = []" and "new_string inp \<noteq> []"
    and "resolveSafePath (env_cwd env) (env_root env) (in_path inp) = Inr safePath"
    and "readFile fs safePath = Inr c"
  shows "editFile_execute env fs inp = None"
  using editFile_execute_stuck[OF _ assms(3,4), of ] assms(1,2) countLoop_empty_diverges[of c 0 0]
  by simp

text \<open>
  Claim C10.  The count is taken without overlaps: in \<^verbatim>\<open>aaa\<close> the string \<^verbatim>\<open>aa\<close> is
  counted once, so an edit of such a file with any other \<open>new_string\<close> succeeds and
  replaces the leftmost match (the replacement text is \<open>new_string\<close> with the dollar
  patterns of \<^verbatim>\<open>replace\<close> expanded), provided the write goes through: the temporary
  file is written, and it is renamed or else copied onto the target.  In general a count above one is reached only
  when two occurrences lie apart, so occurrences that all overlap never give the
  not-unique failure.
\<close>

theorem overlapping_matches_counted_once:
  "countLoop ''aaa'' ''aa'' 0 0 = Some 1 \<and>
   (resolveSafePath (env_cwd env) (env_root env) (in_path inp) = Inr safePath \<and>
    readFile fs safePath = Inr ''aaa'' \<and> old_string inp = ''aa'' \<and> new_string inp \<noteq> ''aa'' \<and>
    writeFile_fault (env_faults env) = None \<and>
    (rename_fault (env_faults env) = None \<or>
     copyFile_fault (env_faults env) = None \<and> env_tmpPath env \<noteq> safePath) \<longrightarrow>
      (case editFile_execute env fs inp of
         None \<Rightarrow> False
       | Some (r, fs') \<Rightarrow>
           \<not> is_error r \<and>
           fs' safePath = Some (File (getSubstitution ''aa'' [] ''a'' (new_string inp) @ ''a'')))) \<and>
   (old \<noteq> [] \<and> countLoop c old 0 0 = Some n \<and> 1 < n \<longrightarrow>
      (\<exists>i j. occurs_at c old i \<and> occurs_at c old j \<and> i + length old \<le> j))"
proof (intro conjI impI)
  show c1: "countLoop ''aaa'' ''aa'' 0 0 = Some 1" by code_simp
  {
    assume h: "resolveSafePath (env_cwd env) (env_root env) (in_path inp) = Inr safePath \<and>
      readFile fs safePath = Inr ''aaa'' \<and> old_string inp = ''aa'' \<and> new_string inp \<noteq> ''aa'' \<and>
      writeFile_fault (env_faults env) = None \<and>
      (rename_fault (env_faults env) = None \<or>
       copyFile_fault (env_faults env) = None \<and> env_tmpPath env \<noteq> safePath)"
    then have ne: "old_string inp \<noteq> new_string inp" by auto
    have cl: "countLoop ''aaa'' (old_string inp) 0 0 = Some 1" using c1 h by simp
    have i0: "indexOf ''aaa'' ''aa'' 0 = Some 0" by code_simp
    have rp: "js_replace ''aaa'' ''aa'' (new_string inp)
                = getSubstitution ''aa'' [] ''a'' (new_string inp) @ ''a''"
      by (simp add: js_replace_def i0)
    from h atomic_write_goes_through[of "env_faults env" "env_tmpPath env" safePath fs
        "js_replace ''aaa'' ''aa'' (new_string inp)"]
    obtain fs' where aw: "atomic_write (env_faults env) fs (env_tmpPath env) safePath
          (js_replace ''aaa'' ''aa'' (new_string inp)) = Inr fs'"
      and tg: "fs' safePath = Some (File (js_replace ''aaa'' ''aa'' (new_string inp)))"
      by blast
    from editFile_execute_counted(2)[OF ne _ _ cl, of env safePath fs] h aw
    have "editFile_execute env fs inp =
            Some (edited_result safePath (old_string inp) (new_string inp), fs')"
      by simp
    then show "case editFile_execute env fs inp of
         None \<Rightarrow> False
       | Some (r, fs') \<Rightarrow>
           \<not> is_error r \<and>
           fs' safePath = Some (File (getSubstitution ''aa'' [] ''a'' (new_string inp) @ ''a''))"
      using tg rp by simp
  }
  {
    assume h: "old \<noteq> [] \<and> countLoop c old 0 0 = Some n \<and> 1 < n"
    then have "2 \<le> scan_count c old 0" using countLoop_scan_count[of old c 0 0] by simp
    then show "\<exists>i j. occurs_at c old i \<and> occurs_at c old j \<and> i + length old \<le> j"
      using scan_count_ge2_iff[of old c] h by simp
  }
qed

text \<open>The theorem at the file \<^verbatim>\<open>aaa\<close> edited with \<^verbatim>\<open>b\<close>, and at the content \<^verbatim>\<open>aaaa\<close>.\<close>

theorem overlapping_matches_counted_once_witness:
  "resolveSafePath (env_cwd env0) (env_root env0) ''a.txt'' = Inr ''/w/a.txt'' \<and>
   readFile [''/w/a.txt'' \<mapsto> File ''aaa''] ''/w/a.txt'' = Inr ''aaa'' \<and>
   (case editFile_execute env0 [''/w/a.txt'' \<mapsto> File ''aaa'']
           \<lparr>in_path = ''a.txt'', old_string = ''aa'', new_string = ''b''\<rparr> of
      None \<Rightarrow> False
    | Some (r, fs') \<Rightarrow> \<not> is_error r \<and> fs' ''/w/a.txt'' = Some (File ''ba'')) \<and>
   countLoop ''aaaa'' ''aa'' 0 0 = Some 2 \<and>
   (\<exists>i j. occurs_at ''aaaa'' ''aa'' i \<and> occurs_at ''aaaa'' ''aa'' j \<and> i + length ''aa'' \<le> j)"
proof -
  let ?inp = "\<lparr>in_path = ''a.txt'', old_string = ''aa'', new_string = ''b''\<rparr>"
  let ?fs = "[''/w/a.txt'' \<mapsto> File ''aaa'']"
  have rs: "resolveSafePath (env_cwd env0) (env_root env0) (in_path ?inp) = Inr ''/w/a.txt''"
    by code_simp
  have rd: "readFile ?fs ''/w/a.txt'' = Inr ''aaa''" by (simp add: readFile_def)
  have g: "getSubstitution ''aa'' [] ''a'' ''b'' @ ''a'' = ''ba''" by simp
  have c2: "countLoop ''aaaa'' ''aa'' 0 0 = Some 2" by code_simp
  have nf: "writeFile_fault (env_faults env0) = None" "rename_fault (env_faults env0) = None"
    by (simp_all add: env0_def no_faults_def)
  note t = overlapping_matches_counted_once[of env0 ?inp "''/w/a.txt''" ?fs "''aa''" "''aaaa''" 2]
  have "editFile_execute env0 ?fs ?inp \<noteq> None" using t rs rd nf by (auto split: option.splits)
  then obtain r fs' where e: "editFile_execute env0 ?fs ?inp = Some (r, fs')" by auto
  from t[unfolded e] rs rd nf have a: "case editFile_execute env0 ?fs ?inp of
      None \<Rightarrow> False
    | Some (r, fs') \<Rightarrow> \<not> is_error r \<and> fs' ''/w/a.txt'' = Some (File ''ba'')"
    unfolding e by (simp add: g)
  from t c2 have b: "\<exists>i j. occurs_at ''aaaa'' ''aa'' i \<and> occurs_at ''aaaa'' ''aa'' j \<and> i + length ''aa'' \<le> j"
    by simp
  from rs rd a c2 b show ?thesis by simp
qed

section \<open>Properties of the shell tool\<close>

lemma isBlockedCommand_rm_root:
  "isBlockedCommand ''rm -rf /'' =
     Some ''Command blocked: rm at filesystem root. If this is intentional, run it directly in your terminal.''"
  by code_simp

lemma isBlockedCommand_echo_grep: "isBlockedCommand ''echo hi | grep h'' = None"
  by code_simp

lemma bash_execute_spawns:
  "isBlockedCommand (command inp) = None \<Longrightarrow>
   snd (bash_execute projectRoot run inp) =
     [\<lparr>sp_file = ''bash'', sp_args = [''-c'', command inp], sp_cwd = projectRoot\<rparr>]"
  by (cases "run \<lparr>sp_file = ''bash'', sp_args = [''-c'', command inp], sp_cwd = projectRoot\<rparr>")
     (simp_all add: bash_execute_def Let_def split: prod.splits)

lemma bash_execute_blocked:
  "isBlockedCommand (command inp) = Some reason \<Longrightarrow>
   bash_execute projectRoot run inp =
     (\<lparr>res_content = ''Blocked: '' @ reason, res_isError = Some True\<rparr>, [])"
  by (simp add: bash_execute_def Let_def)

text \<open>
  Claim C3.  The tool answers \<^verbatim>\<open>rm -rf /\<close> with an error result and spawns nothing,
  whatever the environment; \<^verbatim>\<open>echo hi | grep h\<close> passes the check and is spawned as
  \<^verbatim>\<open>bash -c\<close> in the project root.
\<close>

theorem bash_blocks_rm_root_and_runs_pipeline:
  "bash_execute projectRoot run \<lparr>command = ''rm -rf /'', timeout = t\<rparr> =
     (\<lparr>res_content = ''Blocked: Command blocked: rm at filesystem root. If this is intentional, run it directly in your terminal.'',
        res_isError = Some True\<rparr>, []) \<and>
   isBlockedCommand ''echo hi | grep h'' = None \<and>
   snd (bash_execute projectRoot run \<lparr>command = ''echo hi | grep h'', timeout = t\<rparr>) =
     [\<lparr>sp_file = ''bash'', sp_args = [''-c'', ''echo hi | grep h''], sp_cwd = projectRoot\<rparr>]"
  using bash_execute_blocked[of "\<lparr>command = ''rm -rf /'', timeout = t\<rparr>", OF _] isBlockedCommand_rm_root
    bash_execute_spawns[of "\<lparr>command = ''echo hi | grep h'', timeout = t\<rparr>"] isBlockedCommand_echo_grep
  by simp

section \<open>Properties of the agent loop\<close>

lemma completions_append: "completions (xs @ ys) = completions xs @ completions ys"
  by (induction xs rule: completions.induct) auto

lemma agent_errors_append: "agent_errors (xs @ ys) = agent_errors xs @ agent_errors ys"
  by (induction xs rule: agent_errors.induct) auto

lemma published_since_emit:
  "published_since a (emit e a') = published_since a a' @ [e]" if "length (published a) \<le> length (published a')"
  using that by (simp add: published_since_def emit_def)

lemma published_emit [simp]: "published (emit e a) = published a @ [e]"
  by (simp add: emit_def)

lemma history_emit [simp]: "history (emit e a) = history a"
  by (simp add: emit_def)

lemma state_emit [simp]: "state (emit e a) = state a"
  by (simp add: emit_def)

lemma requestApproval_published:
  "requestApproval env toolId toolName inp a = Some (b, a') \<Longrightarrow>
   published a' = published a @ [ToolApprovalRequired toolId toolName inp] \<and> history a' = history a"
  by (auto simp: requestApproval_def Let_def split: option.splits decision.splits)

lemma requestApproval_None:
  "requestApproval env toolId toolName inp a = None \<longleftrightarrow> approval env toolId = None"
  by (auto simp: requestApproval_def Let_def split: option.splits decision.splits)

lemma run_tool_published:
  "run_tool env t toolId toolName inp a = (r, a') \<Longrightarrow>
   \<exists>d. published a' = published a @ [ToolExecuting toolId toolName,
                                      ToolComplete toolId (res_content r) (is_error r) d]
       \<and> history a' = history a"
  by (auto simp: run_tool_def Let_def is_error_def split: prod.splits sum.splits)

lemma run_tool_outcome:
  assumes "run_tool env t toolId toolName inp a = (r, a')"
  shows "\<exists>d. published a' = published a @ [ToolExecuting toolId toolName,
                                           ToolComplete toolId (res_content r) (is_error r) d] \<and>
     (case execute t inp of
        Resolves ms result \<Rightarrow>
          if ms \<le> toolTimeoutMs (config env) then r = result \<and> d = ms
          else r = \<lparr>res_content = ''Tool error: Tool '' @ toolName @ '' timed out after ''
                                   @ decimal (toolTimeoutMs (config env)) @ ''ms'',
                     res_isError = Some True\<rparr> \<and> d = toolTimeoutMs (config env)
      | Rejects ms msg \<Rightarrow>
          if ms \<le> toolTimeoutMs (config env)
          then r = \<lparr>res_content = ''Tool error: '' @ msg, res_isError = Some True\<rparr> \<and> d = ms
          else r = \<lparr>res_content = ''Tool error: Tool '' @ toolName @ '' timed out after ''
                                   @ decimal (toolTimeoutMs (config env)) @ ''ms'',
                     res_isError = Some True\<rparr> \<and> d = toolTimeoutMs (config env)
      | NeverSettles \<Rightarrow>
          r = \<lparr>res_content = ''Tool error: Tool '' @ toolName @ '' timed out after ''
                              @ decimal (toolTimeoutMs (config env)) @ ''ms'',
                res_isError = Some True\<rparr> \<and> d = toolTimeoutMs (config env))"
proof (cases "execute t inp")
  case (Resolves ms result)
  with assms show ?thesis
    by (cases "ms \<le> toolTimeoutMs (config env)")
       (auto simp: run_tool_def race_def Let_def is_error_def)
next
  case (Rejects ms msg)
  with assms show ?thesis
    by (cases "ms \<le> toolTimeoutMs (config env)")
       (auto simp: run_tool_def race_def Let_def is_error_def)
next
  case NeverSettles
  with assms show ?thesis
    by (auto simp: run_tool_def race_def Let_def is_error_def)
qed

text \<open>
  Claim C4.  Every call of \<open>executeTool\<close> that returns has published exactly one
  \<^verbatim>\<open>tool:complete\<close> event since it was entered, for its tool call, with the content and
  the error flag of the result it returns and with the duration of the tool's run:
  \<^item> an unknown tool, an invalid input and a denied (or cancelled) approval give the
    error result of their kind and the duration 0, the tool not having run;
  \<^item> a tool that resolves within \<open>toolTimeoutMs\<close> gives its own result, whether a
    success or a failure of the tool, and the time it took;
  \<^item> a tool that rejects within \<open>toolTimeoutMs\<close> gives the error result with its
    message and the time it took;
  \<^item> a tool that takes longer or never settles gives the timeout error and the
    duration \<open>toolTimeoutMs\<close>.

  The call does not return only while an approval request stays unanswered.
\<close>

theorem executeTool_publishes_one_complete:
  "case executeTool env toolId toolName inp a of
     None \<Rightarrow>
       approval env toolId = None \<and> confirmDestructive (config env) \<and>
       (\<exists>t. toolMap (tools env) toolName = Some t \<and> valid (validateToolInput t inp)
            \<and> requiresConfirmation t)
   | Some (r, a') \<Rightarrow>
       take (length (published a)) (published a') = published a \<and>
       (\<exists>d. completions (published_since a a') = [(toolId, res_content r, is_error r, d)] \<and>
          (case toolMap (tools env) toolName of
             None \<Rightarrow>
               r = \<lparr>res_content = ''Unknown tool: '' @ toolName, res_isError = Some True\<rparr> \<and> d = 0
           | Some t \<Rightarrow>
               if \<not> valid (validateToolInput t inp) then
                 r = \<lparr>res_content = ''Invalid input for '' @ toolName @ '': ''
                                      @ join_with '', '' (errors (validateToolInput t inp)),
                       res_isError = Some True\<rparr> \<and> d = 0
               else if requiresConfirmation t \<and> confirmDestructive (config env) \<and>
                       approval env toolId \<noteq> Some Approved then
                 r = \<lparr>res_content = ''Tool execution denied by user.'', res_isError = Some True\<rparr> \<and>
                 d = 0
               else
                 (case execute t inp of
                    Resolves ms result \<Rightarrow>
                      if ms \<le> toolTimeoutMs (config env) then r = result \<and> d = ms
                      else r = \<lparr>res_content = ''Tool error: Tool '' @ toolName @ '' timed out after ''
                                               @ decimal (toolTimeoutMs (config env)) @ ''ms'',
                                 res_isError = Some True\<rparr> \<and> d = toolTimeoutMs (config env)
                  | Rejects ms msg \<Rightarrow>
                      if ms \<le> toolTimeoutMs (config env)
                      then r = \<lparr>res_content = ''Tool error: '' @ msg, res_isError = Some True\<rparr> \<and>
                           d = ms
                      else r = \<lparr>res_content = ''Tool error: Tool '' @ toolName @ '' timed out after ''
                                               @ decimal (toolTimeoutMs (config env)) @ ''ms'',
                                 res_isError = Some True\<rparr> \<and> d = toolTimeoutMs (config env)
                  | NeverSettles \<Rightarrow>
                      r = \<lparr>res_content = ''Tool error: Tool '' @ toolName @ '' timed out after ''
                                          @ decimal (toolTimeoutMs (config env)) @ ''ms'',
                            res_isError = Some True\<rparr> \<and> d = toolTimeoutMs (config env))))"
proof (cases "toolMap (tools env) toolName")
  case None
  then show ?thesis
    by (simp add: executeTool_def Let_def published_since_def is_error_def)
next
  case (Some t)
  show ?thesis
  proof (cases "valid (validateToolInput t inp)")
    case False
    then show ?thesis using Some
      by (simp add: executeTool_def Let_def published_since_def is_error_def)
  next
    case v: True
    show ?thesis
    proof (cases "requiresConfirmation t \<and> confirmDestructive (config env)")
      case False
      obtain r a' where ra: "run_tool env t toolId toolName inp a = (r, a')"
        by (cases "run_tool env t toolId toolName inp a") auto
      then have e: "executeTool env toolId toolName inp a = Some (r, a')"
        using Some v False by (auto simp add: executeTool_def Let_def)
      from run_tool_outcome[OF ra] obtain d where
        p: "published a' = published a @ [ToolExecuting toolId toolName,
                                          ToolComplete toolId (res_content r) (is_error r) d]"
        and o: "(case execute t inp of
        Resolves ms result \<Rightarrow>
          if ms \<le> toolTimeoutMs (config env) then r = result \<and> d = ms
          else r = \<lparr>res_content = ''Tool error: Tool '' @ toolName @ '' timed out after ''
                                   @ decimal (toolTimeoutMs (config env)) @ ''ms'',
                     res_isError = Some True\<rparr> \<and> d = toolTimeoutMs (config env)
      | Rejects ms msg \<Rightarrow>
          if ms \<le> toolTimeoutMs (config env)
          then r = \<lparr>res_content = ''Tool error: '' @ msg, res_isError = Some True\<rparr> \<and> d = ms
          else r = \<lparr>res_content = ''Tool error: Tool '' @ toolName @ '' timed out after ''
                                   @ decimal (toolTimeoutMs (config env)) @ ''ms'',
                     res_isError = Some True\<rparr> \<and> d = toolTimeoutMs (config env)
      | NeverSettles \<Rightarrow>
          r = \<lparr>res_content = ''Tool error: Tool '' @ toolName @ '' timed out after ''
                              @ decimal (toolTimeoutMs (config env)) @ ''ms'',
                res_isError = Some True\<rparr> \<and> d = toolTimeoutMs (config env))"
        by blast
      have c: "completions (published_since a a') = [(toolId, res_content r, is_error r, d)]"
        using p by (simp add: published_since_def)
      have t: "take (length (published a)) (published a') = published a" using p by simp
      show ?thesis unfolding e option.case prod.case
        using t c o Some v False by (intro conjI exI[of _ d]) auto
    next
      case c: True
      show ?thesis
      proof (cases "requestApproval env toolId toolName inp a")
        case None
        then have "executeTool env toolId toolName inp a = None"
          using Some v c by (simp add: executeTool_def Let_def)
        moreover from None have "approval env toolId = None" by (simp add: requestApproval_None)
        ultimately show ?thesis using Some v c by auto
      next
        case (Some ba)
        obtain b a1 where ba: "ba = (b, a1)" by (cases ba) auto
        from requestApproval_published[OF Some[unfolded ba]]
        have p1: "published a1 = published a @ [ToolApprovalRequired toolId toolName inp]" by simp
        have ap: "b \<longleftrightarrow> approval env toolId = Some Approved"
          using Some[unfolded ba]
          by (auto simp: requestApproval_def Let_def split: option.splits decision.splits)
        show ?thesis
        proof (cases b)
          case False
          then have "executeTool env toolId toolName inp a =
            Some (\<lparr>res_content = ''Tool execution denied by user.'', res_isError = Some True\<rparr>,
                  emit (ToolComplete toolId ''Tool execution denied by user.'' True 0) a1)"
            using \<open>toolMap (tools env) toolName = Some t\<close> v c Some ba
            by (simp add: executeTool_def Let_def)
          then show ?thesis using p1 \<open>toolMap (tools env) toolName = Some t\<close> v c False ap
            by (simp add: published_since_def is_error_def)
        next
          case True
          obtain r a' where ra: "run_tool env t toolId toolName inp a1 = (r, a')"
            by (cases "run_tool env t toolId toolName inp a1") auto
          then have e: "executeTool env toolId toolName inp a = Some (r, a')"
            using \<open>toolMap (tools env) toolName = Some t\<close> v c Some ba True
            by (simp add: executeTool_def Let_def)
          from run_tool_outcome[OF ra] obtain d where
            p: "published a' = published a1 @ [ToolExecuting toolId toolName,
                                          ToolComplete toolId (res_content r) (is_error r) d]"
            and o: "(case execute t inp of
        Resolves ms result \<Rightarrow>
          if ms \<le> toolTimeoutMs (config env) then r = result \<and> d = ms
          else r = \<lparr>res_content = ''Tool error: Tool '' @ toolName @ '' timed out after ''
                                   @ decimal (toolTimeoutMs (config env)) @ ''ms'',
                     res_isError = Some True\<rparr> \<and> d = toolTimeoutMs (config env)
      | Rejects ms msg \<Rightarrow>
          if ms \<le> toolTimeoutMs (config env)
          then r = \<lparr>res_content = ''Tool error: '' @ msg, res_isError = Some True\<rparr> \<and> d = ms
          else r = \<lparr>res_content = ''Tool error: Tool '' @ toolName @ '' timed out after ''
                                   @ decimal (toolTimeoutMs (config env)) @ ''ms'',
                     res_isError = Some True\<rparr> \<and> d = toolTimeoutMs (config env)
      | NeverSettles \<Rightarrow>
          r = \<lparr>res_content = ''Tool error: Tool '' @ toolName @ '' timed out after ''
                              @ decimal (toolTimeoutMs (config env)) @ ''ms'',
                res_isError = Some True\<rparr> \<and> d = toolTimeoutMs (config env))"
            by blast
          have cc: "completions (published_since a a') = [(toolId, res_content r, is_error r, d)]"
            using p p1 by (simp add: published_since_def)
          have t: "take (length (published a)) (published a') = published a" using p p1 by simp
          show ?thesis unfolding e option.case prod.case
            using t cc o \<open>toolMap (tools env) toolName = Some t\<close> v c True ap
            by (intro conjI exI[of _ d]) auto
        qed
      qed
    qed
  qed
qed

text \<open>
  Claim C4 at three tools run with a timeout of 50 ms: one that resolves after 7 ms,
  one that would resolve after 70 ms, and one that rejects after exactly 50 ms; and at a
  tool that is not registered.
\<close>

theorem executeTool_publishes_one_complete_witness:
  "map_option (\<lambda>x. completions (published (snd x))) (executeTool tools_env ''c1'' ''quick'' [] fresh_agent)
     = Some [(''c1'', ''ok'', False, 7)] \<and>
   map_option (\<lambda>x. completions (published (snd x))) (executeTool tools_env ''c2'' ''slow'' [] fresh_agent)
     = Some [(''c2'', ''Tool error: Tool slow timed out after 50ms'', True, 50)] \<and>
   map_option (\<lambda>x. completions (published (snd x))) (executeTool tools_env ''c3'' ''edge'' [] fresh_agent)
     = Some [(''c3'', ''Tool error: boom'', True, 50)] \<and>
   map_option (\<lambda>x. completions (published (snd x))) (executeTool tools_env ''c4'' ''none'' [] fresh_agent)
     = Some [(''c4'', ''Unknown tool: none'', True, 0)]"
proof -
  have ex: "map_option fst (executeTool tools_env ''c2'' ''slow'' [] fresh_agent)
              = Some \<lparr>res_content = ''Tool error: Tool slow timed out after 50ms'',
                      res_isError = Some True\<rparr>"
    by code_simp
  then obtain r a' where e: "executeTool tools_env ''c2'' ''slow'' [] fresh_agent = Some (r, a')"
    and r: "r = \<lparr>res_content = ''Tool error: Tool slow timed out after 50ms'', res_isError = Some True\<rparr>"
    by (cases "executeTool tools_env ''c2'' ''slow'' [] fresh_agent") auto
  have tm: "toolMap (tools tools_env) ''slow'' =
              Some (timed_tool ''slow'' (Resolves 70 \<lparr>res_content = ''late'', res_isError = None\<rparr>))"
    by (simp add: tools_env_def toolMap_def timed_tool_def)
  have ex2: "execute (timed_tool ''slow'' (Resolves 70 \<lparr>res_content = ''late'', res_isError = None\<rparr>)) []
               = Resolves 70 \<lparr>res_content = ''late'', res_isError = None\<rparr>"
    by (simp add: timed_tool_def)
  have vl: "valid (validateToolInput
              (timed_tool ''slow'' (Resolves 70 \<lparr>res_content = ''late'', res_isError = None\<rparr>)) [])"
    by code_simp
  have nc: "\<not> requiresConfirmation
              (timed_tool ''slow'' (Resolves 70 \<lparr>res_content = ''late'', res_isError = None\<rparr>))"
    by (simp add: timed_tool_def)
  have to: "toolTimeoutMs (config tools_env) = 50" by code_simp
  have pf: "published fresh_agent = []" by (simp add: fresh_agent_def)
  from executeTool_publishes_one_complete[of tools_env "''c2''" "''slow''" "[]" fresh_agent]
  obtain d where
    c: "completions (published_since fresh_agent a') = [(''c2'', res_content r, is_error r, d)]"
    and d: "d = 50"
    unfolding e option.case prod.case tm ex2 exec_outcome.case to using vl nc by auto
  have s2: "map_option (\<lambda>x. completions (published (snd x)))
              (executeTool tools_env ''c2'' ''slow'' [] fresh_agent)
     = Some [(''c2'', ''Tool error: Tool slow timed out after 50ms'', True, 50)]"
    unfolding e using c d r pf by (simp add: published_since_def is_error_def)
  have s1: "map_option (\<lambda>x. completions (published (snd x)))
              (executeTool tools_env ''c1'' ''quick'' [] fresh_agent)
     = Some [(''c1'', ''ok'', False, 7)]"
    by code_simp
  have s3: "map_option (\<lambda>x. completions (published (snd x)))
              (executeTool tools_env ''c3'' ''edge'' [] fresh_agent)
     = Some [(''c3'', ''Tool error: boom'', True, 50)]"
    by code_simp
  have s4: "map_option (\<lambda>x. completions (published (snd x)))
              (executeTool tools_env ''c4'' ''none'' [] fresh_agent)
     = Some [(''c4'', ''Unknown tool: none'', True, 0)]"
    by code_simp
  from s1 s2 s3 s4 show ?thesis by (intro conjI)
qed

text \<open>
  Claim C8.  A call of \<open>processMessage\<close> in a state other than \<open>idle\<close> returns at once;
  it publishes one recoverable \<^verbatim>\<open>agent:error\<close> event and changes nothing else of the
  loop: the history, the state and the counters are what they were.
\<close>

theorem processMessage_busy_rejected:
  assumes "state a \<noteq> idle"
  shows "processMessage env userMessage a = Some (a\<lparr>published := published a @ [busy_error]\<rparr>) \<and>
         busy_error = AgentError (new_Error ''Agent is busy. Wait for current turn to complete.'') True"
  using assms by (simp add: processMessage_def emit_def busy_error_def)

lemma foldl_sum: "foldl (\<lambda>s m. s + f m) (a::nat) h = a + sum_list (map f h)"
  by (induction h arbitrary: a) auto

lemma total_estimate_sum:
  "total_estimate jl h = sum_list (map (estimateTokens jl) h)"
  by (simp add: total_estimate_def foldl_sum)

lemma total_estimate_cut:
  assumes "length h > 2"
  shows "int (total_estimate jl (take 1 h @ drop 2 h)) =
         int (total_estimate jl h) - int (estimateTokens jl (h ! 1))"
proof -
  obtain x y rest where h: "h = x # y # rest"
    using assms by (cases h; cases "tl h") auto
  then show ?thesis by (simp add: total_estimate_sum)
qed

lemma trim_loop_result:
  assumes "trim_loop jl budget h t r = (h', t', r')" and "t = int (total_estimate jl h)"
  shows "r \<le> r' \<and> length h' + (r' - r) = length h \<and>
         h' = take 1 h @ drop (Suc (r' - r)) h \<and>
         t' = int (total_estimate jl h') \<and>
         (length h' \<le> 2 \<or> 5 * t' \<le> 4 * int budget)"
  using assms
proof (induction jl budget h t r rule: trim_loop.induct)
  case (1 jl budget h totalTokens removed)
  show ?case
  proof (cases "length h > 2 \<and> 5 * totalTokens > 4 * int budget")
    case False
    then have "trim_loop jl budget h totalTokens removed = (h, totalTokens, removed)"
      by (subst trim_loop.simps) auto
    with "1.prems" have "h' = h" "t' = totalTokens" "r' = removed" by simp_all
    then show ?thesis using False "1.prems"(2) by (cases h) auto
  next
    case True
    let ?h = "take 1 h @ drop 2 h"
    let ?t = "totalTokens - int (estimateTokens jl (h ! 1))"
    from True have "trim_loop jl budget h totalTokens removed = trim_loop jl budget ?h ?t (removed + 1)"
      by (subst trim_loop.simps) simp
    with "1.prems"(1) have rec: "trim_loop jl budget ?h ?t (removed + 1) = (h', t', r')" by simp
    have t: "?t = int (total_estimate jl ?h)"
      using total_estimate_cut[of h jl] True "1.prems"(2) by simp
    from "1.IH"[OF True rec t]
    have ih: "removed + 1 \<le> r'" "length h' + (r' - (removed + 1)) = length ?h"
      "h' = take 1 ?h @ drop (Suc (r' - (removed + 1))) ?h"
      "t' = int (total_estimate jl h')" "length h' \<le> 2 \<or> 5 * t' \<le> 4 * int budget"
      by blast+
    obtain x y rest where h: "h = x # y # rest"
      using True by (cases h; cases "tl h") auto
    define k where "k = r' - (removed + 1)"
    have s: "r' - removed = Suc k" using ih(1) by (simp add: k_def)
    have "take 1 ?h @ drop (Suc k) ?h = take 1 h @ drop (Suc (Suc k)) h"
      unfolding h by simp
    with ih(3) have c3: "h' = take 1 h @ drop (Suc (r' - removed)) h"
      unfolding s k_def[symmetric] by simp
    have "length ?h = Suc (length rest)" unfolding h by simp
    with ih(1,2) h have c2: "length h' + (r' - removed) = length h" by simp
    from ih(1) have c1: "removed \<le> r'" by simp
    from c1 c2 c3 ih(4,5) show ?thesis by blast
  qed
qed

text \<open>
  Claim C9, as amended.  When trimming runs on a history whose estimated total exceeds
  the budget, the messages removed are the ones right after the first (anchor)
  message, which stays first; afterwards the estimated total is at most 80% of the
  budget or at most two messages remain; a \<^verbatim>\<open>context_trimmed\<close> event with the number
  of removed messages is published when that number is positive, and nothing is
  published otherwise; nothing else of the loop changes.
\<close>

theorem trimContext_keeps_anchor:
  assumes "total_estimate (json_length env) (history a) > contextWindowTokens (config env)"
  shows "case trimContextIfNeeded env a of a' \<Rightarrow>
           (let n = length (history a) - length (history a') in
            history a' = take 1 (history a) @ drop (Suc n) (history a) \<and>
            (5 * total_estimate (json_length env) (history a') \<le> 4 * contextWindowTokens (config env)
              \<or> length (history a') \<le> 2) \<and>
            published a' = published a @ (if n > 0 then [SessionContextTrimmed n] else []) \<and>
            a' = a\<lparr>history := history a', published := published a'\<rparr>)"
proof -
  let ?jl = "json_length env" and ?b = "contextWindowTokens (config env)"
  obtain h' t' r' where tl: "trim_loop ?jl ?b (history a) (int (total_estimate ?jl (history a))) 0 = (h', t', r')"
    by (cases "trim_loop ?jl ?b (history a) (int (total_estimate ?jl (history a))) 0") auto
  from trim_loop_result[OF tl refl]
  have r: "length h' + r' = length (history a)" "h' = take 1 (history a) @ drop (Suc r') (history a)"
    "t' = int (total_estimate ?jl h')" "length h' \<le> 2 \<or> 5 * t' \<le> 4 * int ?b"
    by auto
  from assms have ne: "history a \<noteq> []" by (auto simp: total_estimate_def)
  then obtain first rest where hs: "history a = first # rest" by (cases "history a") auto
  with r(2) have hd: "h' = first # drop r' rest" by simp
  have n: "length (history a) - length h' = r'" using r(1) by simp
  have tc: "trimContextIfNeeded env a =
        (if r' > 0 then emit (SessionContextTrimmed r') (a\<lparr>history := h'\<rparr>) else a\<lparr>history := h'\<rparr>)"
    using assms tl hs hd by (simp add: trimContextIfNeeded_def Let_def)
  have le: "5 * total_estimate ?jl h' \<le> 4 * ?b \<or> length h' \<le> 2"
    using r(3,4) by linarith
  show ?thesis
  proof (cases "r' > 0")
    case True
    then show ?thesis using tc n r(2) le by (simp add: emit_def Let_def)
  next
    case False
    then show ?thesis using tc n r(2) le by (simp add: Let_def)
  qed
qed

text \<open>Claim C8 at a loop that is calling the model.\<close>

theorem processMessage_busy_rejected_witness:
  "state (fresh_agent\<lparr>state := calling_model\<rparr>) \<noteq> idle \<and>
   processMessage example_env ''hello'' (fresh_agent\<lparr>state := calling_model\<rparr>) =
     Some (fresh_agent\<lparr>state := calling_model, published := [busy_error]\<rparr>)"
  using processMessage_busy_rejected[of "fresh_agent\<lparr>state := calling_model\<rparr>" example_env "''hello''"]
  by (simp add: fresh_agent_def)

text \<open>
  Claim C9, amended, at six messages of two tokens each and a budget of ten: the
  second and the third message go, and the rest is within 80% of the budget.
\<close>

theorem trimContext_keeps_anchor_witness:
  "total_estimate (json_length example_env)
     (map plain_message [''first___'', ''second__'', ''third___'', ''fourth__'', ''fifth___'', ''sixth___''])
     > contextWindowTokens (config example_env) \<and>
   history (trimContextIfNeeded example_env
     (fresh_agent\<lparr>history := map plain_message
        [''first___'', ''second__'', ''third___'', ''fourth__'', ''fifth___'', ''sixth___'']\<rparr>))
     = map plain_message [''first___'', ''fourth__'', ''fifth___'', ''sixth___''] \<and>
   published (trimContextIfNeeded example_env
     (fresh_agent\<lparr>history := map plain_message
        [''first___'', ''second__'', ''third___'', ''fourth__'', ''fifth___'', ''sixth___'']\<rparr>))
     = [SessionContextTrimmed 2] \<and>
   5 * total_estimate (json_length example_env)
         (map plain_message [''first___'', ''fourth__'', ''fifth___'', ''sixth___''])
     \<le> 4 * contextWindowTokens (config example_env)"
proof -
  let ?h = "map plain_message [''first___'', ''second__'', ''third___'', ''fourth__'', ''fifth___'', ''sixth___'']"
  let ?h' = "map plain_message [''first___'', ''fourth__'', ''fifth___'', ''sixth___'']"
  define a where "a = fresh_agent\<lparr>history := ?h\<rparr>"
  have ha: "history a = ?h" by (simp add: a_def)
  have ex: "total_estimate (json_length example_env) (history a) > contextWindowTokens (config example_env)"
    unfolding a_def by code_simp
  have hh: "history (trimContextIfNeeded example_env a) = ?h'"
    unfolding a_def by code_simp
  have pa: "published a = []" by (simp add: a_def fresh_agent_def)
  have la: "length (history a) - length ?h' = 2" by (simp add: a_def)
  have le: "5 * total_estimate (json_length example_env) ?h' \<le> 4 * contextWindowTokens (config example_env)"
    by code_simp
  note t = trimContext_keeps_anchor[OF ex, unfolded Let_def hh la pa]
  from t have "published (trimContextIfNeeded example_env a) = [SessionContextTrimmed 2]"
    by simp
  with ex hh le show ?thesis unfolding ha a_def[symmetric] by (intro conjI)
qed

text \<open>
  Claim C9 as stated fails: with a budget of two tokens and three messages of two
  tokens each, trimming stops at two messages, whose estimate of four tokens is above
  80% of the budget.
\<close>

theorem trimmed_total_within_80_percent_counterexample:
  "total_estimate (json_length (example_env\<lparr>config := example_config\<lparr>contextWindowTokens := 2\<rparr>\<rparr>))
     (history (fresh_agent\<lparr>history := map plain_message [''aaaaaaaa'', ''bbbbbbbb'', ''cccccccc'']\<rparr>))
     > contextWindowTokens (config (example_env\<lparr>config := example_config\<lparr>contextWindowTokens := 2\<rparr>\<rparr>)) \<and>
   history (trimContextIfNeeded
      (example_env\<lparr>config := example_config\<lparr>contextWindowTokens := 2\<rparr>\<rparr>)
      (fresh_agent\<lparr>history := map plain_message [''aaaaaaaa'', ''bbbbbbbb'', ''cccccccc'']\<rparr>))
     = map plain_message [''aaaaaaaa'', ''cccccccc''] \<and>
   \<not> 5 * total_estimate (json_length (example_env\<lparr>config := example_config\<lparr>contextWindowTokens := 2\<rparr>\<rparr>))
         (history (trimContextIfNeeded
            (example_env\<lparr>config := example_config\<lparr>contextWindowTokens := 2\<rparr>\<rparr>)
            (fresh_agent\<lparr>history := map plain_message [''aaaaaaaa'', ''bbbbbbbb'', ''cccccccc'']\<rparr>)))
       \<le> 4 * contextWindowTokens (config (example_env\<lparr>config := example_config\<lparr>contextWindowTokens := 2\<rparr>\<rparr>))"
  by (intro conjI; code_simp)

lemma advances_refl: "advances a a []"
  by (simp add: advances_def)

lemma advances_trans:
  "advances a a' hs \<Longrightarrow> advances a' a'' hs' \<Longrightarrow> advances a a'' (hs @ hs')"
  by (auto simp: advances_def agent_errors_append)

lemma advances_emit:
  "agent_errors [e] = [] \<Longrightarrow> advances a a' hs \<Longrightarrow> advances a (emit e a') hs"
  by (auto simp: advances_def agent_errors_append)

lemma advances_fields:
  "advances a a' hs \<Longrightarrow>
   advances a (a'\<lparr>state := s\<rparr>) hs \<and> advances a (a'\<lparr>abortController := b\<rparr>) hs \<and>
   advances a (a'\<lparr>pendingApproval := p\<rparr>) hs \<and>
   advances a (a'\<lparr>totalTokensIn := i, totalTokensOut := out\<rparr>) hs"
  by (simp add: advances_def)

lemma consume_quiet:
  assumes "error_events events = []" and "advances a0 a []"
  shows "\<exists>acc' a'. consume events acc a = (None, acc', a') \<and> advances a0 a' [] \<and>
           textAccumulator acc' = textAccumulator acc @ concat (text_deltas events) \<and>
           toolCalls acc' = toolCalls acc @ tool_call_ends events"
  using assms
proof (induction events acc a rule: consume.induct)
  case (1 acc a)
  then show ?case by simp
next
  case (2 t es acc a)
  from 2(2) have e: "error_events es = []" by simp
  have "advances a0 (emit (AgentText t) a) []" using 2(3) by (simp add: advances_emit)
  from 2(1)[OF e this] show ?case by auto
next
  case (3 i n inp es acc a)
  from 3(2) have e: "error_events es = []" by simp
  have "advances a0 (emit (AgentToolRequest i n inp) a) []" using 3(3) by (simp add: advances_emit)
  from 3(1)[OF e this] show ?case by auto
next
  case (4 u es acc a)
  from 4(2) have e: "error_events es = []" by simp
  from 4(1)[OF e 4(3)] show ?case by auto
next
  case (5 e es acc a)
  then show ?case by simp
next
  case (6 i n es acc a)
  from 6(2) have e: "error_events es = []" by simp
  from 6(1)[OF e 6(3)] show ?case by auto
next
  case (7 i d es acc a)
  from 7(2) have e: "error_events es = []" by simp
  from 7(1)[OF e 7(3)] show ?case by auto
qed

lemma callModel_tool_call_turn:
  assumes "tool_call_turn (provider env (history a))"
  shows "\<exists>i n inp a'. callModel env a = (Some [ToolUse i n inp], a') \<and>
           advances a a' [\<lparr>msg_role = Assistant, msg_content = Blocks [ToolUse i n inp],
                           msg_toolCallId = None\<rparr>]"
proof -
  obtain events thrown where p: "provider env (history a) = (events, thrown)"
    by (cases "provider env (history a)") auto
  with assms have th: "thrown = None" and ee: "error_events events = []"
    and tx: "concat (text_deltas events) = []" and tc: "length (tool_call_ends events) = 1"
    by (auto simp: tool_call_turn_def)
  from tc obtain i n inp where one: "tool_call_ends events = [(i, n, inp)]"
    by (cases "tool_call_ends events") auto
  let ?a1 = "emit AgentThinking (a\<lparr>state := calling_model, abortController := True\<rparr>)"
  let ?acc0 = "\<lparr>textAccumulator = [], toolCalls = [], usage = \<lparr>inputTokens = 0, outputTokens = 0\<rparr>\<rparr>"
  have a1: "advances a ?a1 []" by (simp add: advances_def)
  have h1: "history ?a1 = history a" by simp
  from consume_quiet[OF ee a1, of ?acc0] obtain acc' a2 where
    c: "consume events ?acc0 ?a1 = (None, acc', a2)" and q: "advances a a2 []"
    and t: "textAccumulator acc' = []" and k: "toolCalls acc' = [(i, n, inp)]"
    using tx one by auto
  let ?m = "\<lparr>msg_role = Assistant, msg_content = Blocks [ToolUse i n inp], msg_toolCallId = None\<rparr>"
  let ?a5 = "emit (AgentTurnComplete (usage acc'))
               (a2\<lparr>totalTokensIn := totalTokensIn a2 + inputTokens (usage acc'),
                    totalTokensOut := totalTokensOut a2 + outputTokens (usage acc')\<rparr>)"
  have cm: "callModel env a =
     (Some [ToolUse i n inp], ?a5\<lparr>history := history ?a5 @ [?m], abortController := False\<rparr>)"
    using p th c t k by (simp add: callModel_def Let_def)
  have "advances a ?a5 []" using q by (auto simp: advances_def agent_errors_append)
  then have "advances a (?a5\<lparr>history := history ?a5 @ [?m], abortController := False\<rparr>) [?m]"
    by (simp add: advances_def)
  with cm show ?thesis by blast
qed

lemma executeTool_quiet:
  assumes "approval env toolId \<noteq> None"
  shows "\<exists>r a'. executeTool env toolId toolName inp a = Some (r, a') \<and> advances a a' []"
proof (cases "toolMap (tools env) toolName")
  case None
  then show ?thesis by (auto simp: executeTool_def Let_def advances_def)
next
  case (Some t)
  show ?thesis
  proof (cases "valid (validateToolInput t inp)")
    case False
    with Some show ?thesis by (auto simp: executeTool_def Let_def advances_def)
  next
    case v: True
    show ?thesis
    proof (cases "requiresConfirmation t \<and> confirmDestructive (config env)")
      case False
      obtain r a' where ra: "run_tool env t toolId toolName inp a = (r, a')"
        by (cases "run_tool env t toolId toolName inp a") auto
      with Some v False have "executeTool env toolId toolName inp a = Some (r, a')"
        by (auto simp: executeTool_def Let_def)
      moreover from run_tool_published[OF ra] have "advances a a' []"
        by (auto simp: advances_def)
      ultimately show ?thesis by blast
    next
      case c: True
      from assms obtain ba where ra: "requestApproval env toolId toolName inp a = Some ba"
        using requestApproval_None[of env toolId toolName inp a]
        by (cases "requestApproval env toolId toolName inp a") auto
      obtain b a1 where ba: "ba = (b, a1)" by (cases ba) auto
      from requestApproval_published[OF ra[unfolded ba]]
      have p1: "advances a a1 []" by (simp add: advances_def)
      show ?thesis
      proof (cases b)
        case False
        with Some v c ra ba
        have "executeTool env toolId toolName inp a =
            Some (\<lparr>res_content = ''Tool execution denied by user.'', res_isError = Some True\<rparr>,
                  emit (ToolComplete toolId ''Tool execution denied by user.'' True 0) a1)"
          by (simp add: executeTool_def Let_def)
        moreover have "advances a (emit (ToolComplete toolId ''Tool execution denied by user.'' True 0) a1) []"
          using p1 by (simp add: advances_emit)
        ultimately show ?thesis by blast
      next
        case True
        obtain r a' where rt: "run_tool env t toolId toolName inp a1 = (r, a')"
          by (cases "run_tool env t toolId toolName inp a1") auto
        with True Some v c ra ba have "executeTool env toolId toolName inp a = Some (r, a')"
          by (simp add: executeTool_def Let_def)
        moreover from run_tool_published[OF rt] have "advances a1 a' []"
          by (auto simp: advances_def)
        with advances_trans[OF p1] have "advances a a' []" by fastforce
        ultimately show ?thesis by blast
      qed
    qed
  qed
qed

lemma run_tools_quiet:
  assumes "\<forall>i. approval env i \<noteq> None"
  shows "\<exists>bs a'. run_tools env uses acc a = Some (acc @ bs, a') \<and> advances a a' [] \<and>
           length bs = length uses \<and> list_all is_tool_result bs"
proof (induction uses arbitrary: acc a)
  case Nil
  then show ?case by (simp add: advances_refl)
next
  case (Cons u uses)
  obtain i n inp where u: "u = (i, n, inp)" by (cases u) auto
  from assms have "approval env i \<noteq> None" by simp
  from executeTool_quiet[OF this, of n inp a] obtain r a1 where
    e: "executeTool env i n inp a = Some (r, a1)" and q: "advances a a1 []" by blast
  let ?b = "ToolResultBlock i (res_content r) (is_error r)"
  from Cons.IH[of "acc @ [?b]" a1] obtain bs a' where
    r: "run_tools env uses (acc @ [?b]) a1 = Some ((acc @ [?b]) @ bs, a')"
    and q': "advances a1 a' []" and l: "length bs = length uses" and t: "list_all is_tool_result bs"
    by blast
  have "run_tools env (u # uses) acc a = Some (acc @ (?b # bs), a')"
    using u e r by simp
  moreover have "advances a a' []" using advances_trans[OF q q'] by simp
  moreover have "length (?b # bs) = length (u # uses)" using l by simp
  moreover have "list_all is_tool_result (?b # bs)" using t by (simp add: is_tool_result_def)
  ultimately show ?case by blast
qed

lemma turns_tool_calls:
  assumes "\<forall>h. tool_call_turn (provider env h)" and "\<forall>i. approval env i \<noteq> None"
  shows "\<exists>a' hs. turns env n a = Some (0, a') \<and> advances a a' hs \<and>
           length hs = 2 * n \<and> alternating hs"
proof (induction n arbitrary: a)
  case 0
  then show ?case by (auto simp: advances_refl)
next
  case (Suc n)
  from assms(1) have "tool_call_turn (provider env (history a))" by simp
  from callModel_tool_call_turn[OF this] obtain i k inp a1 where
    cm: "callModel env a = (Some [ToolUse i k inp], a1)"
    and q1: "advances a a1 [\<lparr>msg_role = Assistant, msg_content = Blocks [ToolUse i k inp],
                             msg_toolCallId = None\<rparr>]" (is "advances a a1 [?m1]")
    by blast
  have q1': "advances a (a1\<lparr>state := processing_tools\<rparr>) [?m1]"
    using advances_fields[OF q1] by simp
  from run_tools_quiet[OF assms(2), of "[(i, k, inp)]" "[]" "a1\<lparr>state := processing_tools\<rparr>"]
  obtain bs a2 where rt: "run_tools env [(i, k, inp)] [] (a1\<lparr>state := processing_tools\<rparr>) = Some (bs, a2)"
    and q2: "advances (a1\<lparr>state := processing_tools\<rparr>) a2 []"
    and l: "length bs = 1" and t: "list_all is_tool_result bs"
    by auto
  let ?m2 = "\<lparr>msg_role = User, msg_content = Blocks bs, msg_toolCallId = None\<rparr>"
  let ?a3 = "a2\<lparr>history := history a2 @ [?m2]\<rparr>"
  have q3: "advances a2 ?a3 [?m2]" by (simp add: advances_def)
  have q: "advances a ?a3 [?m1, ?m2]"
    using advances_trans[OF advances_trans[OF q1' q2] q3] by simp
  from Suc.IH[of ?a3] obtain a' hs where
    tn: "turns env n ?a3 = Some (0, a')" and q4: "advances ?a3 a' hs"
    and lh: "length hs = 2 * n" and al: "alternating hs" by blast
  have "turns env (Suc n) a = Some (0, a')"
    using cm rt tn by (simp add: Let_def)
  moreover have "advances a a' ([?m1, ?m2] @ hs)" using advances_trans[OF q q4] .
  moreover have "length ([?m1, ?m2] @ hs) = 2 * Suc n" using lh by simp
  moreover have "alternating ([?m1, ?m2] @ hs)"
    using al l t by (cases bs) (auto simp: is_assistant_message_def is_tool_result_wrapper_def)
  ultimately show ?case by blast
qed

lemma trimContextIfNeeded_quiet:
  "\<exists>evs. published (trimContextIfNeeded env a) = published a @ evs \<and> agent_errors evs = []"
proof (cases "total_estimate (json_length env) (history a) \<le> contextWindowTokens (config env)")
  case True
  then show ?thesis by (simp add: trimContextIfNeeded_def)
next
  case False
  obtain h t r where "trim_loop (json_length env) (contextWindowTokens (config env)) (history a)
        (int (total_estimate (json_length env) (history a))) 0 = (h, t, r)"
    by (metis prod_cases3)
  with False show ?thesis
    by (cases "r > 0") (simp_all add: trimContextIfNeeded_def Let_def)
qed

lemma trimContextIfNeeded_state: "state (trimContextIfNeeded env a) = state a"
proof (cases "total_estimate (json_length env) (history a) \<le> contextWindowTokens (config env)")
  case True
  then show ?thesis by (simp add: trimContextIfNeeded_def)
next
  case False
  obtain h t r where "trim_loop (json_length env) (contextWindowTokens (config env)) (history a)
        (int (total_estimate (json_length env) (history a))) 0 = (h, t, r)"
    by (metis prod_cases3)
  with False show ?thesis
    by (cases "r > 0") (simp_all add: trimContextIfNeeded_def Let_def)
qed

lemma decimal_2: "decimal 2 = ''2''"
  by code_simp

lemma trimContextIfNeeded_single:
  "history (trimContextIfNeeded env (a\<lparr>history := [m]\<rparr>)) = [m]"
proof (cases "total_estimate (json_length env) [m] \<le> contextWindowTokens (config env)")
  case True
  then show ?thesis by (simp add: trimContextIfNeeded_def)
next
  case False
  have "trim_loop (json_length env) (contextWindowTokens (config env)) [m]
        (int (total_estimate (json_length env) [m])) 0 = ([m], int (total_estimate (json_length env) [m]), 0)"
    by (subst trim_loop.simps) simp
  with False show ?thesis by (simp add: trimContextIfNeeded_def Let_def)
qed

text \<open>
  Claim C5.  With the turn ceiling 2, an idle loop, a provider whose every turn
  yields exactly one tool call and no text, and approval requests that are answered,
  \<open>processMessage\<close> returns with the loop idle; the history is the trimmed history
  (the user message alone when the history was empty) followed by exactly four
  messages, an assistant message and a user message of tool results, twice; and
  exactly one \<^verbatim>\<open>agent:error\<close> event was published, the recoverable max-turns error.
\<close>

theorem processMessage_turn_ceiling:
  assumes "maxTurns (config env) = 2" and "state a = idle"
    and "\<forall>h. tool_call_turn (provider env h)" and "\<forall>i. approval env i \<noteq> None"
  shows "case processMessage env userMessage a of
           None \<Rightarrow> False
         | Some a' \<Rightarrow>
             state a' = idle \<and>
             (let base = history (trimContextIfNeeded env
                           (a\<lparr>history := history a @ [plain_message userMessage]\<rparr>))
              in take (length base) (history a') = base \<and>
                 length (drop (length base) (history a')) = 4 \<and>
                 alternating (drop (length base) (history a')) \<and>
                 (history a = [] \<longrightarrow> base = [plain_message userMessage])) \<and>
             take (length (published a)) (published a') = published a \<and>
             agent_errors (published_since a a') =
               [(new_Error ''Hit maximum turns (2). Stopping to prevent infinite loop.'', True)]"
proof -
  let ?a1 = "a\<lparr>history := history a @ [plain_message userMessage]\<rparr>"
  let ?a2 = "trimContextIfNeeded env ?a1"
  from turns_tool_calls[OF assms(3,4), of 2 ?a2] obtain a3 hs where
    t: "turns env 2 ?a2 = Some (0, a3)" and q: "advances ?a2 a3 hs"
    and l: "length hs = 4" and al: "alternating hs" by auto
  let ?e = "max_turns_error 2"
  have pm: "processMessage env userMessage a = Some ((emit ?e a3)\<lparr>state := idle\<rparr>)"
    using assms(1,2) t by (simp add: processMessage_def Let_def plain_message_def)
  from trimContextIfNeeded_quiet[of env ?a1] obtain evs1 where
    p1: "published ?a2 = published a @ evs1" and e1: "agent_errors evs1 = []" by auto
  from q obtain evs2 where h3: "history a3 = history ?a2 @ hs"
    and p2: "published a3 = published ?a2 @ evs2" and e2: "agent_errors evs2 = []"
    by (auto simp: advances_def)
  have pub: "published ((emit ?e a3)\<lparr>state := idle\<rparr>) = published a @ (evs1 @ evs2 @ [?e])"
    using p1 p2 by simp
  have errs: "agent_errors (evs1 @ evs2 @ [?e]) =
      [(new_Error ''Hit maximum turns (2). Stopping to prevent infinite loop.'', True)]"
    using e1 e2 by (simp add: agent_errors_append max_turns_error_def decimal_2)
  have single: "history a = [] \<longrightarrow> history ?a2 = [plain_message userMessage]"
    using trimContextIfNeeded_single[where env = env and a = a and m = "plain_message userMessage"] by auto
  show ?thesis unfolding pm option.case
    using h3 l al pub errs single by (simp add: Let_def published_since_def)
qed


text \<open>Claim C5 at the example loop, whose provider always asks for a tool that is missing.\<close>

theorem processMessage_turn_ceiling_witness:
  "maxTurns (config example_env) = 2 \<and> state fresh_agent = idle \<and>
   (\<forall>h. tool_call_turn (provider example_env h)) \<and> (\<forall>i. approval example_env i \<noteq> None) \<and>
   (case processMessage example_env ''hi'' fresh_agent of
      None \<Rightarrow> False
    | Some a' \<Rightarrow>
        state a' = idle \<and>
        map msg_role (history a') = [User, Assistant, User, Assistant, User] \<and>
        alternating (drop 1 (history a')) \<and>
        agent_errors (published_since fresh_agent a') =
          [(new_Error ''Hit maximum turns (2). Stopping to prevent infinite loop.'', True)])"
proof -
  have m: "maxTurns (config example_env) = 2" by (simp add: example_env_def example_config_def)
  have s: "state fresh_agent = idle" by (simp add: fresh_agent_def)
  have p: "\<forall>h. tool_call_turn (provider example_env h)"
    by (simp add: example_env_def tool_call_turn_def)
  have ap: "\<forall>i. approval example_env i \<noteq> None" by (simp add: example_env_def)
  have h0: "history fresh_agent = []" by (simp add: fresh_agent_def)
  have roles: "map_option (\<lambda>a'. map msg_role (history a')) (processMessage example_env ''hi'' fresh_agent)
      = Some [User, Assistant, User, Assistant, User]"
    by code_simp
  note t = processMessage_turn_ceiling[OF m s p ap, of "''hi''"]
  from t obtain a' where e: "processMessage example_env ''hi'' fresh_agent = Some a'"
    by (cases "processMessage example_env ''hi'' fresh_agent") auto
  have b: "history (trimContextIfNeeded example_env
              (fresh_agent\<lparr>history := history fresh_agent @ [plain_message ''hi'']\<rparr>))
           = [plain_message ''hi'']"
    unfolding h0 append_Nil by (rule trimContextIfNeeded_single)
  from t[unfolded e option.case Let_def b]
  have "state a' = idle" and "alternating (drop 1 (history a'))"
    and "agent_errors (published_since fresh_agent a') =
          [(new_Error ''Hit maximum turns (2). Stopping to prevent infinite loop.'', True)]"
    by simp_all
  moreover from roles e have "map msg_role (history a') = [User, Assistant, User, Assistant, User]"
    by simp
  ultimately show ?thesis using m s p ap unfolding e option.case by blast
qed

section \<open>Properties of the event bus\<close>

lemma maxHistory_record_event [simp]: "maxHistory (record_event e b) = maxHistory b"
  by (simp add: record_event_def)

lemma bus_history_record_event [simp]:
  "bus_history (record_event e b) = push_history (maxHistory b) (bus_history b) e"
  by (simp add: record_event_def)

lemma handlers_record_event [simp]: "handlers (record_event e b) = handlers b"
  by (simp add: record_event_def)

lemma dispatch_thrower_diverges:
  assumes "dispatch b ev hs = Some b'"
  shows "\<not> (handlers b ''system:error'' = [thrower] \<and> (\<exists>rest. hs = thrower # rest))"
proof (rule dispatch.raw_induct[where P = "\<lambda>b ev hs b'.
     \<not> (handlers b ''system:error'' = [thrower] \<and> (\<exists>rest. hs = thrower # rest))", OF _ assms])
  fix d :: "event_bus \<Rightarrow> moth_event \<Rightarrow> handler list \<Rightarrow> event_bus option" and b ev hs b'
  assume ih: "\<And>b ev hs b'. d b ev hs = Some b' \<Longrightarrow>
          \<not> (handlers b ''system:error'' = [thrower] \<and> (\<exists>rest. hs = thrower # rest))"
    and body: "(case hs of
        [] \<Rightarrow> Some b
      | h # rest \<Rightarrow>
          (case h ev of
             Returns \<Rightarrow> d b ev rest
           | ReturnsPromise r \<Rightarrow>
               d (b\<lparr>rejections := rejections b @ (case r of None \<Rightarrow> [] | Some e \<Rightarrow> [e])\<rparr>)
                 ev rest
           | Throws err \<Rightarrow>
               Option.bind
                 (d (record_event (SystemError err False) b) (SystemError err False)
                    (handlers b ''system:error''))
                 (\<lambda>b'. d b' ev rest))) = Some b'"
  show "\<not> (handlers b ''system:error'' = [thrower] \<and> (\<exists>rest. hs = thrower # rest))"
  proof
    assume a: "handlers b ''system:error'' = [thrower] \<and> (\<exists>rest. hs = thrower # rest)"
    then obtain rest where hs: "hs = thrower # rest" by blast
    let ?e = "SystemError (new_Error ''boom'') False"
    from body hs a obtain b1 where
      "d (record_event ?e b) ?e [thrower] = Some b1"
      by (auto simp: thrower_def split: Option.bind_splits)
    from ih[OF this] a show False by simp
  qed
qed

lemma dispatch_no_throw:
  assumes "\<forall>h \<in> set hs. \<forall>e. h ev \<noteq> Throws e"
  shows "\<exists>b'. dispatch b ev hs = Some b' \<and> handlers b' = handlers b \<and>
              bus_history b' = bus_history b \<and> maxHistory b' = maxHistory b"
  using assms
proof (induction hs arbitrary: b)
  case Nil
  then show ?case by (subst dispatch.simps) simp
next
  case (Cons h hs)
  then have nt: "\<forall>e. h ev \<noteq> Throws e" and rest: "\<forall>h \<in> set hs. \<forall>e. h ev \<noteq> Throws e" by auto
  show ?case
  proof (cases "h ev")
    case Returns
    from Cons.IH[OF rest, of b] show ?thesis using Returns by (subst dispatch.simps) simp
  next
    case (Throws e)
    with nt show ?thesis by simp
  next
    case (ReturnsPromise r)
    let ?b = "b\<lparr>rejections := rejections b @ (case r of None \<Rightarrow> [] | Some e \<Rightarrow> [e])\<rparr>"
    from Cons.IH[OF rest, of ?b] show ?thesis using ReturnsPromise
      by (subst dispatch.simps) simp
  qed
qed

lemma emit_contains_handler_errors:
  assumes "\<forall>h \<in> set (handlers b ''system:error''). \<forall>e f x. h (SystemError e f) \<noteq> Throws x"
  shows "\<exists>b'. dispatch b ev hs = Some b' \<and> handlers b' = handlers b \<and>
              maxHistory b' = maxHistory b \<and>
              bus_history b' = foldl (push_history (maxHistory b)) (bus_history b) (thrown_errors ev hs)"
  using assms
proof (induction hs arbitrary: b)
  case Nil
  then show ?case by (subst dispatch.simps) (simp add: thrown_errors_def)
next
  case (Cons h hs)
  show ?case
  proof (cases "h ev")
    case Returns
    from Cons.IH[OF Cons.prems] show ?thesis using Returns
      by (subst dispatch.simps) (simp add: thrown_errors_def)
  next
    case (ReturnsPromise r)
    let ?b = "b\<lparr>rejections := rejections b @ (case r of None \<Rightarrow> [] | Some e \<Rightarrow> [e])\<rparr>"
    have "\<forall>h \<in> set (handlers ?b ''system:error''). \<forall>e f x. h (SystemError e f) \<noteq> Throws x"
      using Cons.prems by simp
    from Cons.IH[OF this] show ?thesis using ReturnsPromise
      by (subst dispatch.simps) (simp add: thrown_errors_def)
  next
    case (Throws err)
    let ?e = "SystemError err False"
    let ?b1 = "record_event ?e b"
    have q: "\<forall>h \<in> set (handlers b ''system:error''). \<forall>x. h ?e \<noteq> Throws x"
      using Cons.prems by blast
    from dispatch_no_throw[OF q, of ?b1] obtain b2 where
      d1: "dispatch ?b1 ?e (handlers b ''system:error'') = Some b2"
      and h2: "handlers b2 = handlers b"
      and bh2: "bus_history b2 = push_history (maxHistory b) (bus_history b) ?e"
      and m2: "maxHistory b2 = maxHistory b"
      by auto
    have "\<forall>h \<in> set (handlers b2 ''system:error''). \<forall>e f x. h (SystemError e f) \<noteq> Throws x"
      using Cons.prems h2 by simp
    from Cons.IH[OF this] obtain b' where
      d: "dispatch b2 ev hs = Some b'" and hb: "handlers b' = handlers b2"
      and mb: "maxHistory b' = maxHistory b2"
      and bh: "bus_history b' = foldl (push_history (maxHistory b2)) (bus_history b2) (thrown_errors ev hs)"
      by auto
    from d1 d hb mb bh h2 m2 bh2 show ?thesis using Throws
      by (subst dispatch.simps) (simp add: thrown_errors_def)
  qed
qed

text \<open>
  What \<open>emit\<close> does achieve: as long as no handler subscribed to \<^verbatim>\<open>system:error\<close>
  throws on such an event, \<open>emit\<close> returns to the publisher, and the history then
  holds the event followed by one \<^verbatim>\<open>system:error\<close> event for each handler that threw.
\<close>

lemma bus_emit_returns:
  assumes "\<forall>h \<in> set (handlers b ''system:error''). \<forall>e f x. h (SystemError e f) \<noteq> Throws x"
  shows "\<exists>b'. bus_emit ev b = Some b' \<and>
           bus_history b' =
             foldl (push_history (maxHistory b)) (push_history (maxHistory b) (bus_history b) ev)
               (thrown_errors ev (handlers b (event_type ev)))"
proof -
  have "\<forall>h \<in> set (handlers (record_event ev b) ''system:error'').
          \<forall>e f x. h (SystemError e f) \<noteq> Throws x"
    using assms by simp
  from emit_contains_handler_errors[OF this, of ev "handlers b (event_type ev)"]
  show ?thesis by (auto simp: bus_emit_def)
qed

text \<open>
  Claim C6 fails on the code.  On a bus where a handler subscribed to \<^verbatim>\<open>system:error\<close>
  throws, publishing a \<^verbatim>\<open>system:error\<close> event, or any event one of whose handlers
  throws, makes \<open>emit\<close> call itself without end: it never returns to the publisher.
\<close>

theorem emit_recurses_without_bound:
  "bus_emit (SystemError (new_Error ''disk full'') False) faulty_bus = None \<and>
   bus_emit (UserInput ''hello'') (on ''user:input'' thrower faulty_bus) = None"
proof -
  have h: "handlers faulty_bus ''system:error'' = [thrower]"
    by (simp add: faulty_bus_def on_def new_bus_def)
  have h2: "handlers (on ''user:input'' thrower faulty_bus) ''system:error'' = [thrower]"
    "handlers (on ''user:input'' thrower faulty_bus) ''user:input'' = [thrower]"
    by (simp_all add: faulty_bus_def on_def new_bus_def)
  have "bus_emit (SystemError (new_Error ''disk full'') False) faulty_bus = None"
    using dispatch_thrower_diverges[of "record_event (SystemError (new_Error ''disk full'') False) faulty_bus"
        "SystemError (new_Error ''disk full'') False" "[thrower]"] h
    by (cases "bus_emit (SystemError (new_Error ''disk full'') False) faulty_bus")
       (auto simp: bus_emit_def event_type_def)
  moreover have "bus_emit (UserInput ''hello'') (on ''user:input'' thrower faulty_bus) = None"
    using dispatch_thrower_diverges[of "record_event (UserInput ''hello'') (on ''user:input'' thrower faulty_bus)"
        "UserInput ''hello''" "[thrower]"] h2
    by (cases "bus_emit (UserInput ''hello'') (on ''user:input'' thrower faulty_bus)")
       (auto simp: bus_emit_def event_type_def)
  ultimately show ?thesis by simp
qed



section \<open>Properties of the provider adapter\<close>









































lemma tool_call_ends_text [simp]:
  "tool_call_ends (if b then [TextDelta t] else []) = []"
  "error_events (if b then [TextDelta t] else []) = []"
  by simp_all



text \<open>
  A chunk that has a finish reason but no delta is skipped before the finish marker
  is looked at.
\<close>

lemma finish_without_delta_skipped:
  "handle_chunk pa \<lparr>ch_usage = None,
                    ch_choices = Some [\<lparr>c_delta = None, c_finish_reason = Some reason\<rparr>]\<rparr> st
     = ([], st)"
  by (simp add: handle_chunk_def)





end
